theory Spec2Isabelle
  imports Main "HOL-Library.Word"
begin

text \<open>
  Two scripts of a Minecraft server are modelled here: the playtime aggregator of
  \<^verbatim>\<open>playtimes.py\<close> and the remote-console client \<^verbatim>\<open>MCRcon\<close> of \<^verbatim>\<open>treasure_hunt.py\<close>.
  Every Python function that a statement below is about is a function of the same name
  (methods of \<^verbatim>\<open>MCRcon\<close> carry the class name as a prefix, their leading underscore
  dropped). Exceptions are values of a sum type, with \<open>Inl\<close> for a raised exception; a
  call that never returns is the value \<open>None\<close>.
\<close>

section \<open>The playtime aggregator (playtimes.py): model\<close>

text \<open>
  \<^verbatim>\<open>calculate_play_time(events)\<close> scans triples \<^verbatim>\<open>(event_time, player, action)\<close>.
  A \<^verbatim>\<open>datetime\<close> is modelled as an integer count of time units since a fixed origin
  and a \<^verbatim>\<open>timedelta\<close> as the integer difference of two of them; both dictionaries
  are maps from the player's name. \<^verbatim>\<open>play_time\<close> is a \<^verbatim>\<open>defaultdict(timedelta)\<close>: a
  missing key reads as \<^verbatim>\<open>timedelta(0)\<close> under \<^verbatim>\<open>+=\<close>. The arithmetic is the one of the
  integers: the bound of \<^verbatim>\<open>timedelta\<close> (999999999 days), far beyond any total a log can
  reach, is left out.
\<close>

type_synonym datetime = int
type_synonym timedelta = int
type_synonym log_event = "datetime \<times> string \<times> string"
type_synonym play_state = "(string \<rightharpoonup> timedelta) \<times> (string \<rightharpoonup> datetime)"

text \<open>The body of the \<^verbatim>\<open>for\<close> loop, on the pair \<^verbatim>\<open>(play_time, active_sessions)\<close>.\<close>

fun play_step :: "play_state \<Rightarrow> log_event \<Rightarrow> play_state" where
  "play_step (play_time, active_sessions) (event_time, player, action) =
     (if action = ''joined'' then (play_time, active_sessions(player \<mapsto> event_time))
      else if action = ''left'' then
        (case active_sessions player of
           None \<Rightarrow> (play_time, active_sessions)
         | Some join_time \<Rightarrow>
             (let delta = event_time - join_time
              in (play_time(player \<mapsto> (case play_time player of None \<Rightarrow> 0 | Some t \<Rightarrow> t) + delta),
                  active_sessions(player := None))))
      else (play_time, active_sessions))"

fun play_loop :: "log_event list \<Rightarrow> play_state \<Rightarrow> play_state" where
  "play_loop [] st = st"
| "play_loop (ev # events) st = play_loop events (play_step st ev)"

definition calculate_play_time :: "log_event list \<Rightarrow> (string \<rightharpoonup> timedelta)" where
  "calculate_play_time events = fst (play_loop events (Map.empty, Map.empty))"

subsection \<open>Sessions, as the specification words them\<close>

text \<open>
  The join/leave events of one player, in order, as pairs of the time and whether the
  event is a join.
\<close>

fun player_events :: "string \<Rightarrow> log_event list \<Rightarrow> (datetime \<times> bool) list" where
  "player_events p [] = []"
| "player_events p ((t, q, a) # events) =
     (if q = p \<and> a = ''joined'' then (t, True) # player_events p events
      else if q = p \<and> a = ''left'' then (t, False) # player_events p events
      else player_events p events)"

text \<open>
  The completed sessions of a player: every leave that directly follows a join of that
  player (the matching join), as the pair of the two timestamps.
\<close>

fun sessions :: "(datetime \<times> bool) list \<Rightarrow> (datetime \<times> datetime) list" where
  "sessions ((t1, True) # (t2, False) # es) = (t1, t2) # sessions es"
| "sessions (e # es) = sessions es"
| "sessions [] = []"


text \<open>
  The join of a player that is still waiting for its leave after \<open>events\<close>: the player's
  last join/leave event, when that event is a join.
\<close>

definition pending_session :: "string \<Rightarrow> log_event list \<Rightarrow> datetime option" where
  "pending_session p events =
     (case rev (player_events p events) of
        [] \<Rightarrow> None
      | (t, is_join) # _ \<Rightarrow> if is_join then Some t else None)"

subsection \<open>Auxiliary notions for the loop invariant\<close>

definition pending_join :: "(string \<rightharpoonup> datetime) \<Rightarrow> string \<Rightarrow> (datetime \<times> bool) list" where
  "pending_join active_sessions p =
     (case active_sessions p of None \<Rightarrow> [] | Some j \<Rightarrow> [(j, True)])"

definition durations :: "(datetime \<times> bool) list \<Rightarrow> timedelta list" where
  "durations es = map (\<lambda>(j, l). l - j) (sessions es)"

definition add_durations :: "timedelta option \<Rightarrow> timedelta list \<Rightarrow> timedelta option" where
  "add_durations cur ds =
     (if ds = [] then cur else Some ((case cur of None \<Rightarrow> 0 | Some t \<Rightarrow> t) + sum_list ds))"

section \<open>The remote-console client (treasure_hunt.py): data\<close>

text \<open>
  A byte string is a list of 8-bit words. A Python \<^verbatim>\<open>str\<close> is the list of its code
  points. The exceptions are the ones the client and the library functions it calls can
  raise: the client's single class \<^verbatim>\<open>MCRconException\<close> with its message,
  \<^verbatim>\<open>struct.error\<close>, the two Unicode errors of the codec, and \<^verbatim>\<open>OSError\<close> (with the
  name of the error number) for what the socket layer raises.
\<close>

type_synonym byte = "8 word"

type_synonym bytes = "byte list"

type_synonym str = "nat list"

datatype exn =
    MCRconException string
  | StructError
  | UnicodeEncodeError
  | UnicodeDecodeError
  | OSError string

subsection \<open>struct.pack and struct.unpack, formats \<^verbatim>\<open><i\<close> and \<^verbatim>\<open><ii\<close>\<close>

text \<open>
  \<^verbatim>\<open>struct.pack("<i", n)\<close> writes a signed 32-bit integer as four bytes, least
  significant first, and raises \<^verbatim>\<open>struct.error\<close> when \<open>n\<close> is outside
  \<open>-2\<^sup>3\<^sup>1 .. 2\<^sup>3\<^sup>1 - 1\<close>. \<^verbatim>\<open>struct.unpack\<close> raises \<^verbatim>\<open>struct.error\<close>
  unless the buffer has exactly the size of the format.
\<close>

definition le32 :: "nat \<Rightarrow> bytes" where
  "le32 u = [of_nat (u mod 256), of_nat (u div 256 mod 256),
             of_nat (u div 65536 mod 256), of_nat (u div 16777216 mod 256)]"

definition pack_i :: "int \<Rightarrow> exn + bytes" where
  "pack_i n = (if - 2147483648 \<le> n \<and> n \<le> 2147483647
               then Inr (le32 (nat (n mod 4294967296))) else Inl StructError)"

definition signed32 :: "nat \<Rightarrow> int" where
  "signed32 u = (if u < 2147483648 then int u else int u - 4294967296)"

fun unpack_i :: "bytes \<Rightarrow> exn + int" where
  "unpack_i [b0, b1, b2, b3] =
     Inr (signed32 (unat b0 + 256 * unat b1 + 65536 * unat b2 + 16777216 * unat b3))"
| "unpack_i bs = Inl StructError"

definition pack_ii :: "int \<Rightarrow> int \<Rightarrow> exn + bytes" where
  "pack_ii a b =
     (case pack_i a of Inl e \<Rightarrow> Inl e
      | Inr x \<Rightarrow> (case pack_i b of Inl e \<Rightarrow> Inl e | Inr y \<Rightarrow> Inr (x @ y)))"

definition unpack_ii :: "bytes \<Rightarrow> exn + int \<times> int" where
  "unpack_ii bs =
     (if length bs = 8 then
        (case unpack_i (take 4 bs) of Inl e \<Rightarrow> Inl e
         | Inr a \<Rightarrow> (case unpack_i (drop 4 bs) of Inl e \<Rightarrow> Inl e | Inr b \<Rightarrow> Inr (a, b)))
      else Inl StructError)"

subsection \<open>The UTF-8 codec\<close>

text \<open>
  \<^verbatim>\<open>str.encode("utf8")\<close> raises \<^verbatim>\<open>UnicodeEncodeError\<close> on a surrogate code point
  (\<open>0xD800 .. 0xDFFF\<close>); code points above \<open>0x10FFFF\<close> are not part of a Python string
  and are refused in the same way. \<^verbatim>\<open>bytes.decode("utf8")\<close> is the strict decoder: it
  accepts exactly the well-formed sequences (shortest form, no surrogates, nothing above
  \<open>0x10FFFF\<close>) and raises \<^verbatim>\<open>UnicodeDecodeError\<close> otherwise.
\<close>

definition utf8_encode_char :: "nat \<Rightarrow> exn + bytes" where
  "utf8_encode_char c =
     (if c < 0x80 then Inr [of_nat c]
      else if c < 0x800 then Inr [of_nat (0xC0 + c div 64), of_nat (0x80 + c mod 64)]
      else if c < 0x10000 then
        (if 0xD800 \<le> c \<and> c \<le> 0xDFFF then Inl UnicodeEncodeError
         else Inr [of_nat (0xE0 + c div 4096), of_nat (0x80 + c div 64 mod 64),
                   of_nat (0x80 + c mod 64)])
      else if c < 0x110000 then
        Inr [of_nat (0xF0 + c div 262144), of_nat (0x80 + c div 4096 mod 64),
             of_nat (0x80 + c div 64 mod 64), of_nat (0x80 + c mod 64)]
      else Inl UnicodeEncodeError)"

fun utf8_encode :: "str \<Rightarrow> exn + bytes" where
  "utf8_encode [] = Inr []"
| "utf8_encode (c # s) =
     (case utf8_encode_char c of Inl e \<Rightarrow> Inl e
      | Inr bs \<Rightarrow> (case utf8_encode s of Inl e \<Rightarrow> Inl e | Inr rest \<Rightarrow> Inr (bs @ rest)))"

definition is_cont :: "byte \<Rightarrow> bool" where
  "is_cont b = (0x80 \<le> unat b \<and> unat b \<le> 0xBF)"

definition decoded :: "nat \<Rightarrow> exn + str \<Rightarrow> exn + str" where
  "decoded c r = (case r of Inl e \<Rightarrow> Inl e | Inr s \<Rightarrow> Inr (c # s))"

fun utf8_decode :: "bytes \<Rightarrow> exn + str" where
  "utf8_decode [] = Inr []"
| "utf8_decode (b0 # bs) =
     (if unat b0 < 0x80 then decoded (unat b0) (utf8_decode bs)
      else if 0xC2 \<le> unat b0 \<and> unat b0 \<le> 0xDF then
        (case bs of
           b1 # r \<Rightarrow>
             if is_cont b1
             then decoded ((unat b0 - 0xC0) * 64 + (unat b1 - 0x80)) (utf8_decode r)
             else Inl UnicodeDecodeError
         | _ \<Rightarrow> Inl UnicodeDecodeError)
      else if 0xE0 \<le> unat b0 \<and> unat b0 \<le> 0xEF then
        (case bs of
           b1 # b2 # r \<Rightarrow>
             if (if unat b0 = 0xE0 then 0xA0 else 0x80) \<le> unat b1
                \<and> unat b1 \<le> (if unat b0 = 0xED then 0x9F else 0xBF) \<and> is_cont b2
             then decoded ((unat b0 - 0xE0) * 4096 + (unat b1 - 0x80) * 64 + (unat b2 - 0x80))
                    (utf8_decode r)
             else Inl UnicodeDecodeError
         | _ \<Rightarrow> Inl UnicodeDecodeError)
      else if 0xF0 \<le> unat b0 \<and> unat b0 \<le> 0xF4 then
        (case bs of
           b1 # b2 # b3 # r \<Rightarrow>
             if (if unat b0 = 0xF0 then 0x90 else 0x80) \<le> unat b1
                \<and> unat b1 \<le> (if unat b0 = 0xF4 then 0x8F else 0xBF)
                \<and> is_cont b2 \<and> is_cont b3
             then decoded ((unat b0 - 0xF0) * 262144 + (unat b1 - 0x80) * 4096
                           + (unat b2 - 0x80) * 64 + (unat b3 - 0x80))
                    (utf8_decode r)
             else Inl UnicodeDecodeError
         | _ \<Rightarrow> Inl UnicodeDecodeError)
      else Inl UnicodeDecodeError)"

subsection \<open>The exceptions the client raises\<close>

text \<open>
  The four \<^verbatim>\<open>raise MCRconException(...)\<close> statements of the source, each with its
  message: in \<^verbatim>\<open>timeout_handler\<close>, and in \<^verbatim>\<open>_send\<close> for a missing socket, for a wrong
  padding and for the correlation id \<open>-1\<close>.
\<close>

definition timeout_handler :: exn where
  "timeout_handler = MCRconException ''Connection timeout error''"

definition must_connect :: exn where
  "must_connect = MCRconException ''Must connect before sending data''"

definition incorrect_padding :: exn where
  "incorrect_padding = MCRconException ''Incorrect padding''"

definition login_failed :: exn where
  "login_failed = MCRconException ''Login failed''"

section \<open>The socket and the alarm, as the client sees them\<close>

text \<open>
  The client talks to the operating system through \<^verbatim>\<open>socket.send\<close>, \<^verbatim>\<open>socket.recv\<close>,
  \<^verbatim>\<open>select.select\<close> with a zero timeout, and \<^verbatim>\<open>signal.alarm\<close>. Their behaviour is not
  code of the repository; it is modelled by a state that holds
  \<^item> \<open>connected\<close>: whether \<^verbatim>\<open>socket.connect\<close> has succeeded on this socket;
  \<^item> \<open>rbuf\<close>: the bytes that have arrived and have not been read yet;
  \<^item> \<open>eof\<close>: whether the peer has closed its side (an orderly close);
  \<^item> \<open>pending\<close>: what the network does next, in order, each time the client blocks in
    \<^verbatim>\<open>recv\<close> with an empty buffer: more bytes arrive (\<open>Data\<close>), the peer closes
    (\<open>Fin\<close>), or the connection is reset (\<open>Rst\<close>); an empty list means that nothing
    ever arrives;
  \<^item> \<open>sent\<close>: all bytes the client has written;
  \<^item> \<open>alarm\<close>: \<open>None\<close> when no alarm is armed, otherwise the number of further
    rounds of the busy loop of \<^verbatim>\<open>_read\<close> that complete before \<^verbatim>\<open>SIGALRM\<close> is delivered;
  \<^item> \<open>spin_rate\<close>: the number of such rounds the machine makes per second.

  \<^verbatim>\<open>recv(n)\<close> returns at once up to \<open>n\<close> buffered bytes; at end of stream it returns
  the empty byte string at once, every time; otherwise it blocks until the next event. A
  blocked \<^verbatim>\<open>recv\<close> with nothing left to arrive is ended by the alarm, whose handler
  raises, or never returns when no alarm is armed. \<^verbatim>\<open>signal.alarm(0)\<close> disarms the
  alarm. \<^verbatim>\<open>select\<close> with a zero timeout reports the socket readable when bytes are
  buffered or the stream is at its end. \<^verbatim>\<open>send\<close> is taken to accept the whole request.
\<close>

datatype event = Data bytes | Fin | Rst

record sock =
  connected :: bool
  rbuf :: bytes
  eof :: bool
  pending :: "event list"
  sent :: bytes
  alarm :: "nat option"
  spin_rate :: nat

definition new_socket :: sock where
  "new_socket = \<lparr>connected = False, rbuf = [], eof = False, pending = [], sent = [],
                  alarm = None, spin_rate = 0\<rparr>"

definition signal_alarm :: "nat \<Rightarrow> sock \<Rightarrow> sock" where
  "signal_alarm t sk = sk\<lparr>alarm := (if t = 0 then None else Some (t * spin_rate sk))\<rparr>"

definition sock_recv :: "sock \<Rightarrow> nat \<Rightarrow> ((exn + bytes) \<times> sock) option" where
  "sock_recv sk n =
     (if \<not> connected sk then Some (Inl (OSError ''ENOTCONN''), sk)
      else if rbuf sk \<noteq> [] then Some (Inr (take n (rbuf sk)), sk\<lparr>rbuf := drop n (rbuf sk)\<rparr>)
      else if eof sk then
        (case alarm sk of
           None \<Rightarrow> Some (Inr [], sk)
         | Some 0 \<Rightarrow> Some (Inl timeout_handler, sk\<lparr>alarm := None\<rparr>)
         | Some (Suc k) \<Rightarrow> Some (Inr [], sk\<lparr>alarm := Some k\<rparr>))
      else
        (case pending sk of
           [] \<Rightarrow> (case alarm sk of
                    None \<Rightarrow> None
                  | Some k \<Rightarrow> Some (Inl timeout_handler, sk\<lparr>alarm := None\<rparr>))
         | Data bs # evs \<Rightarrow> Some (Inr (take n bs), sk\<lparr>rbuf := drop n bs, pending := evs\<rparr>)
         | Fin # evs \<Rightarrow> Some (Inr [], sk\<lparr>eof := True, pending := evs\<rparr>)
         | Rst # evs \<Rightarrow>
             Some (Inl (OSError ''ECONNRESET''), sk\<lparr>eof := True, pending := evs\<rparr>)))"

definition sock_send :: "sock \<Rightarrow> bytes \<Rightarrow> (exn + nat) \<times> sock" where
  "sock_send sk bs =
     (if \<not> connected sk then (Inl (OSError ''EPIPE''), sk)
      else (Inr (length bs), sk\<lparr>sent := sent sk @ bs\<rparr>))"

definition select_readable :: "sock \<Rightarrow> bool" where
  "select_readable sk = (rbuf sk \<noteq> [] \<or> eof sk)"

section \<open>The client\<close>

text \<open>
  The object state of \<^verbatim>\<open>MCRcon\<close>: the fields set by \<^verbatim>\<open>__init__\<close> and the class
  attribute \<^verbatim>\<open>socket = None\<close>. \<^verbatim>\<open>disconnect\<close> closes the socket, if there is one, and
  sets the attribute back to \<^verbatim>\<open>None\<close>; this is the only call of \<^verbatim>\<open>close\<close> in the class.
\<close>

record MCRcon =
  host :: string
  password :: str
  port :: nat
  timeout :: nat
  socket :: "sock option"

definition MCRcon_init :: "string \<Rightarrow> str \<Rightarrow> nat \<Rightarrow> nat \<Rightarrow> MCRcon" where
  "MCRcon_init h pw p t = \<lparr>host = h, password = pw, port = p, timeout = t, socket = None\<rparr>"

definition MCRcon_disconnect :: "MCRcon \<Rightarrow> MCRcon" where
  "MCRcon_disconnect self =
     (case socket self of None \<Rightarrow> self | Some sk \<Rightarrow> self\<lparr>socket := None\<rparr>)"

text \<open>
  \<^verbatim>\<open>_read(length)\<close>: arm the alarm, append what \<^verbatim>\<open>recv\<close> returns until \<open>length\<close>
  bytes are there, disarm the alarm. The loop has no test for an empty result of
  \<^verbatim>\<open>recv\<close>.
  \<^verbatim>\<open>
    signal.alarm(self.timeout)
    data = b""
    while len(data) < length:
        data += self.socket.recv(length - len(data))
    signal.alarm(0)
    return data
  \<close>
\<close>

partial_function (option) read_loop :: "sock \<Rightarrow> int \<Rightarrow> bytes \<Rightarrow> ((exn + bytes) \<times> sock) option" where
  "read_loop sk n data =
     (if int (length data) < n then
        Option.bind (sock_recv sk (nat (n - int (length data))))
          (\<lambda>(r, sk'). case r of
             Inl e \<Rightarrow> Some (Inl e, sk')
           | Inr chunk \<Rightarrow> read_loop sk' n (data @ chunk))
      else Some (Inr data, sk))"

definition MCRcon_read :: "nat \<Rightarrow> sock \<Rightarrow> int \<Rightarrow> ((exn + bytes) \<times> sock) option" where
  "MCRcon_read tmo sk n =
     Option.bind (read_loop (signal_alarm tmo sk) n [])
       (\<lambda>(r, sk'). case r of
          Inl e \<Rightarrow> Some (Inl e, sk')
        | Inr data \<Rightarrow> Some (Inr data, signal_alarm 0 sk'))"

text \<open>
  \<^verbatim>\<open>_send(out_type, out_data)\<close>. \<open>request_frame\<close> is the byte string handed to
  \<^verbatim>\<open>socket.send\<close>: the length of the payload, then the payload, which is the
  correlation id 0, the type, the encoded text and two zero bytes. \<open>read_packet\<close> is
  the pair of reads at the head of the loop body, \<open>parse_body\<close> the two unpacking
  lines that follow, \<open>recv_packets\<close> the \<^verbatim>\<open>while True\<close> loop with the accumulated
  \<^verbatim>\<open>in_data\<close> as its argument.
  \<^verbatim>\<open>
    (in_length,) = struct.unpack("<i", self._read(4))
    in_payload = self._read(in_length)
    in_id, in_type = struct.unpack("<ii", in_payload[:8])
    in_data_partial, in_padding = in_payload[8:-2], in_payload[-2:]
  \<close>
  The slice \<^verbatim>\<open>in_payload[8:-2]\<close> is \<open>drop 8 (take (length in_payload - 2) in_payload)\<close>
  and \<^verbatim>\<open>in_payload[-2:]\<close> is \<open>drop (length in_payload - 2) in_payload\<close>, the
  subtraction stopping at 0 as the slice bounds do.
\<close>

definition request_frame :: "int \<Rightarrow> str \<Rightarrow> exn + bytes" where
  "request_frame out_type out_data =
     (case pack_ii 0 out_type of Inl e \<Rightarrow> Inl e | Inr ids \<Rightarrow>
      (case utf8_encode out_data of Inl e \<Rightarrow> Inl e | Inr encoded \<Rightarrow>
       (let out_payload = ids @ encoded @ [0, 0]
        in case pack_i (int (length out_payload)) of Inl e \<Rightarrow> Inl e
           | Inr out_length \<Rightarrow> Inr (out_length @ out_payload))))"

definition read_packet :: "nat \<Rightarrow> sock \<Rightarrow> ((exn + bytes) \<times> sock) option" where
  "read_packet tmo sk =
     Option.bind (MCRcon_read tmo sk 4) (\<lambda>(r, sk1).
       case r of Inl e \<Rightarrow> Some (Inl e, sk1) | Inr hdr \<Rightarrow>
       (case unpack_i hdr of Inl e \<Rightarrow> Some (Inl e, sk1)
        | Inr in_length \<Rightarrow> MCRcon_read tmo sk1 in_length))"

definition parse_body :: "bytes \<Rightarrow> exn + int \<times> int \<times> bytes \<times> bytes" where
  "parse_body in_payload =
     (case unpack_ii (take 8 in_payload) of Inl e \<Rightarrow> Inl e
      | Inr (in_id, in_type) \<Rightarrow>
          Inr (in_id, in_type, drop 8 (take (length in_payload - 2) in_payload),
               drop (length in_payload - 2) in_payload))"

partial_function (option) recv_packets :: "nat \<Rightarrow> sock \<Rightarrow> str \<Rightarrow> ((exn + str) \<times> sock) option" where
  "recv_packets tmo sk in_data =
     Option.bind (read_packet tmo sk) (\<lambda>(r, sk2).
       case r of Inl e \<Rightarrow> Some (Inl e, sk2) | Inr in_payload \<Rightarrow>
       (case parse_body in_payload of Inl e \<Rightarrow> Some (Inl e, sk2)
        | Inr (in_id, in_type, in_data_partial, in_padding) \<Rightarrow>
            if in_padding \<noteq> [0, 0] then Some (Inl incorrect_padding, sk2)
            else if in_id = - 1 then Some (Inl login_failed, sk2)
            else (case utf8_decode in_data_partial of Inl e \<Rightarrow> Some (Inl e, sk2)
                  | Inr s \<Rightarrow>
                      if \<not> select_readable sk2 then Some (Inr (in_data @ s), sk2)
                      else recv_packets tmo sk2 (in_data @ s))))"

definition MCRcon_send :: "MCRcon \<Rightarrow> int \<Rightarrow> str \<Rightarrow> ((exn + str) \<times> MCRcon) option" where
  "MCRcon_send self out_type out_data =
     (case socket self of
        None \<Rightarrow> Some (Inl must_connect, self)
      | Some sk \<Rightarrow>
          (case request_frame out_type out_data of
             Inl e \<Rightarrow> Some (Inl e, self)
           | Inr frame \<Rightarrow>
               (case sock_send sk frame of
                  (Inl e, sk1) \<Rightarrow> Some (Inl e, self\<lparr>socket := Some sk1\<rparr>)
                | (Inr _, sk1) \<Rightarrow>
                    map_option (\<lambda>(r, sk'). (r, self\<lparr>socket := Some sk'\<rparr>))
                      (recv_packets (timeout self) sk1 []))))"

text \<open>
  \<^verbatim>\<open>connect\<close> stores a new socket object in \<^verbatim>\<open>self.socket\<close>, connects it and sends
  the login request. The argument \<open>peer\<close> is what the network answers to
  \<^verbatim>\<open>socket.connect\<close>: an error, or the established connection with the traffic to come.
  \<^verbatim>\<open>command\<close> is \<^verbatim>\<open>_send\<close> with type 2; the pause after it changes no state.
\<close>

definition MCRcon_connect :: "MCRcon \<Rightarrow> exn + sock \<Rightarrow> ((exn + unit) \<times> MCRcon) option" where
  "MCRcon_connect self peer =
     (case peer of
        Inl e \<Rightarrow> Some (Inl e, self\<lparr>socket := Some new_socket\<rparr>)
      | Inr sk \<Rightarrow>
          map_option (\<lambda>(r, self'). (case r of Inl e \<Rightarrow> Inl e | Inr _ \<Rightarrow> Inr (), self'))
            (MCRcon_send (self\<lparr>socket := Some sk\<rparr>) 3 (password self)))"

definition MCRcon_command :: "MCRcon \<Rightarrow> str \<Rightarrow> ((exn + str) \<times> MCRcon) option" where
  "MCRcon_command self command = MCRcon_send self 2 command"

section \<open>Notions used to state and prove the properties\<close>

text \<open>
  \<open>response_frame\<close> is a packet as the peer puts it on the wire (the same layout as a
  request, with any correlation id); \<open>well_framed\<close> relates a packet of a response,
  given by id, type and text, to its bytes and excludes the id \<open>-1\<close>.
  \<open>offsets p xs\<close> lists the positions at which the elements of \<open>xs\<close> end when the
  first one starts at \<open>p\<close>. \<open>buffer_at p b cs\<close> is the receive buffer and the chunks
  still to arrive once \<open>p\<close> bytes have been read from a socket that started with the
  buffer \<open>b\<close> and the chunks \<open>cs\<close> to come; \<open>stream_sock\<close> is the socket in that
  state. \<open>loop_at tmo sk0 sk in_data\<close> says that the receiving loop, started on the
  socket \<open>sk0\<close> with nothing accumulated, comes back to its head with the socket
  \<open>sk\<close> and the text \<open>in_data\<close> accumulated. \<open>str_of\<close> writes an ASCII literal
  as a Python string, \<open>peer\<close> and \<open>session\<close> build the sockets and sessions of the
  examples.
\<close>

definition response_frame :: "int \<Rightarrow> int \<Rightarrow> str \<Rightarrow> exn + bytes" where
  "response_frame in_id in_type s =
     (case pack_ii in_id in_type of Inl e \<Rightarrow> Inl e | Inr ids \<Rightarrow>
      (case utf8_encode s of Inl e \<Rightarrow> Inl e | Inr encoded \<Rightarrow>
       (let payload = ids @ encoded @ [0, 0]
        in case pack_i (int (length payload)) of Inl e \<Rightarrow> Inl e
           | Inr len \<Rightarrow> Inr (len @ payload))))"



fun buffer_at :: "nat \<Rightarrow> bytes \<Rightarrow> bytes list \<Rightarrow> bytes \<times> bytes list" where
  "buffer_at p b [] = (drop p b, [])"
| "buffer_at p b (c # cs) = (if p \<le> length b then (drop p b, c # cs) else buffer_at (p - length b) c cs)"

definition stream_sock :: "sock \<Rightarrow> bytes \<Rightarrow> bytes list \<Rightarrow> event list \<Rightarrow> nat \<Rightarrow> sock" where
  "stream_sock sk b cs rest p =
     sk\<lparr>rbuf := fst (buffer_at p b cs), pending := map Data (snd (buffer_at p b cs)) @ rest\<rparr>"

inductive loop_at :: "nat \<Rightarrow> sock \<Rightarrow> sock \<Rightarrow> str \<Rightarrow> bool" for tmo :: nat and sk0 :: sock where
  first: "loop_at tmo sk0 sk0 []"
| again: "loop_at tmo sk0 sk in_data \<Longrightarrow> read_packet tmo sk = Some (Inr in_payload, sk2)
     \<Longrightarrow> parse_body in_payload = Inr (in_id, in_type, in_data_partial, [0, 0])
     \<Longrightarrow> in_id \<noteq> - 1 \<Longrightarrow> utf8_decode in_data_partial = Inr s \<Longrightarrow> select_readable sk2
     \<Longrightarrow> loop_at tmo sk0 sk2 (in_data @ s)"

definition str_of :: "string \<Rightarrow> str" where
  "str_of cs = map of_char cs"

definition peer :: "event list \<Rightarrow> sock" where
  "peer evs = \<lparr>connected = True, rbuf = [], eof = False, pending = evs, sent = [],
               alarm = None, spin_rate = 1\<rparr>"

definition session :: "sock option \<Rightarrow> MCRcon" where
  "session sk = \<lparr>host = ''127.0.0.1'', password = str_of ''secret'', port = 25575,
                 timeout = 5, socket = sk\<rparr>"

section \<open>The playtime aggregator: properties\<close>

lemma sessions_leave_first [simp]: "sessions ((t, False) # es) = sessions es"
  by (cases es) auto

lemma durations_simps [simp]:
  "durations [] = []"
  "durations ((t, False) # es) = durations es"
  "durations ((t, True) # (u, True) # es) = durations ((u, True) # es)"
  "durations ((t, True) # (u, False) # es) = (u - t) # durations es"
  "durations [(t, True)] = []"
  by (simp_all add: durations_def)

lemma add_durations_Cons:
  "add_durations cur (d # ds) =
     add_durations (Some ((case cur of None \<Rightarrow> 0 | Some t \<Rightarrow> t) + d)) ds"
  by (simp add: add_durations_def)

text \<open>
  From any loop state, the final total of \<open>p\<close> is the total so far plus the sessions that
  the pending join (if any) and the remaining events of \<open>p\<close> complete.
\<close>

lemma play_loop_inv:
  "fst (play_loop events (pt, act)) p =
     add_durations (pt p) (durations (pending_join act p @ player_events p events))"
proof (induction events arbitrary: pt act)
  case Nil
  show ?case by (simp add: pending_join_def add_durations_def split: option.splits)
next
  case (Cons ev events)
  obtain t q a where ev: "ev = (t, q, a)" by (cases ev) auto
  show ?case
  proof (cases "q = p")
    case False
    then show ?thesis unfolding ev
      by (simp add: Cons.IH pending_join_def split: option.splits)
  next
    case True
    then show ?thesis unfolding ev
      by (simp add: Cons.IH pending_join_def add_durations_Cons split: option.splits)
  qed
qed

lemma play_loop_append: "play_loop (xs @ ys) st = play_loop ys (play_loop xs st)"
  by (induction xs arbitrary: st) auto

lemma player_events_append:
  "player_events p (xs @ ys) = player_events p xs @ player_events p ys"
  by (induction xs) auto

text \<open>\<^verbatim>\<open>active_sessions\<close> holds, for each player, exactly the pending join.\<close>

lemma active_sessions_pending:
  "snd (play_loop events (Map.empty, Map.empty)) p = pending_session p events"
proof (induction events rule: rev_induct)
  case Nil
  show ?case by (simp add: pending_session_def)
next
  case (snoc ev events)
  obtain t q a where ev: "ev = (t, q, a)" by (cases ev) auto
  obtain pt act where st: "play_loop events (Map.empty, Map.empty) = (pt, act)"
    by (cases "play_loop events (Map.empty, Map.empty)") auto
  from snoc st have act: "act p = pending_session p events" by simp
  show ?case
    using act
    by (auto simp: play_loop_append st ev pending_session_def player_events_append
        split: option.splits)
qed

lemma sessions_superseded:
  "sessions (xs @ (t1, True) # (t2, True) # ys) = sessions (xs @ (t2, True) # ys)"
  by (induction xs rule: sessions.induct) auto

subsection \<open>Claims about the aggregator\<close>



text \<open>
  Claim C10. \<^verbatim>\<open>calculate_play_time\<close> pairs a leave with the pending join of the same
  player, that is the most recent join of the player not yet followed by a leave: the
  leave adds its distance from that join to the player's total and to nothing else. A
  leave of a player with no pending join can be dropped from the log without changing
  any total. A join that is followed by another join of the same player, with no
  join/leave event of that player in between, can be dropped as well: the later join
  replaces it and the interval from the earlier one is counted nowhere.
\<close>

theorem calculate_play_time_pairing:
  "(pending_session p pre = Some t1 \<longrightarrow>
      calculate_play_time (pre @ [(t2, p, ''left'')]) =
        (calculate_play_time pre)
          (p \<mapsto> (case calculate_play_time pre p of None \<Rightarrow> 0 | Some t \<Rightarrow> t) + (t2 - t1)))
   \<and> (pending_session p pre = None \<longrightarrow>
      calculate_play_time (pre @ (t2, p, ''left'') # post) = calculate_play_time (pre @ post))
   \<and> (player_events p mid = [] \<longrightarrow>
      calculate_play_time (pre @ (t1, p, ''joined'') # mid @ (t2, p, ''joined'') # post) =
      calculate_play_time (pre @ mid @ (t2, p, ''joined'') # post))"
proof (intro conjI impI)
  obtain pt act where st: "play_loop pre (Map.empty, Map.empty) = (pt, act)"
    by (cases "play_loop pre (Map.empty, Map.empty)") auto
  have act: "act p = pending_session p pre"
    using active_sessions_pending [of pre p] by (simp add: st)
  {
    assume "pending_session p pre = Some t1"
    with act show "calculate_play_time (pre @ [(t2, p, ''left'')]) =
        (calculate_play_time pre)
          (p \<mapsto> (case calculate_play_time pre p of None \<Rightarrow> 0 | Some t \<Rightarrow> t) + (t2 - t1))"
      by (simp add: calculate_play_time_def play_loop_append st)
  }
  {
    assume "pending_session p pre = None"
    with act show "calculate_play_time (pre @ (t2, p, ''left'') # post) =
        calculate_play_time (pre @ post)"
      by (simp add: calculate_play_time_def play_loop_append st)
  }
  {
    assume mid: "player_events p mid = []"
    show "calculate_play_time (pre @ (t1, p, ''joined'') # mid @ (t2, p, ''joined'') # post) =
      calculate_play_time (pre @ mid @ (t2, p, ''joined'') # post)"
    proof
      fix q
      show "calculate_play_time (pre @ (t1, p, ''joined'') # mid @ (t2, p, ''joined'') # post) q =
        calculate_play_time (pre @ mid @ (t2, p, ''joined'') # post) q"
      proof (cases "q = p")
        case True
        then show ?thesis
          by (simp add: calculate_play_time_def play_loop_inv pending_join_def
              player_events_append mid durations_def sessions_superseded)
      next
        case False
        then show ?thesis
          by (simp add: calculate_play_time_def play_loop_inv pending_join_def
              player_events_append)
      qed
    qed
  }
qed

theorem calculate_play_time_pairing_witness:
  "pending_session ''Al'' [(10, ''Al'', ''joined''), (12, ''Bo'', ''joined'')] = Some 10
   \<and> calculate_play_time ([(10, ''Al'', ''joined''), (12, ''Bo'', ''joined'')] @ [(25, ''Al'', ''left'')]) ''Al'' = Some 15
   \<and> pending_session ''Al'' [(12, ''Bo'', ''joined'')] = None
   \<and> calculate_play_time ([(12, ''Bo'', ''joined'')] @ (13, ''Al'', ''left'') # [(20, ''Bo'', ''left'')])
       = calculate_play_time ([(12, ''Bo'', ''joined'')] @ [(20, ''Bo'', ''left'')])
   \<and> player_events ''Al'' [(12, ''Bo'', ''joined'')] = []
   \<and> calculate_play_time ([] @ (1, ''Al'', ''joined'') # [(12, ''Bo'', ''joined'')] @ (20, ''Al'', ''joined'') # [(30, ''Al'', ''left'')]) ''Al'' = Some 10"
proof -
  have h1: "pending_session ''Al'' [(10, ''Al'', ''joined''), (12, ''Bo'', ''joined'')] = Some 10"
    by (simp add: pending_session_def)
  have h2: "pending_session ''Al'' [(12, ''Bo'', ''joined'')] = None"
    by (simp add: pending_session_def)
  have h3: "player_events ''Al'' [(12, ''Bo'', ''joined'')] = []" by simp
  have c0: "calculate_play_time [(10, ''Al'', ''joined''), (12, ''Bo'', ''joined'')] ''Al'' = None"
    by (simp add: calculate_play_time_def)
  have c3: "calculate_play_time ([] @ [(12, ''Bo'', ''joined'')] @ (20, ''Al'', ''joined'') # [(30, ''Al'', ''left'')]) ''Al'' = Some 10"
    by (simp add: calculate_play_time_def)
  from calculate_play_time_pairing [where p = "''Al''" and pre = "[(10, ''Al'', ''joined''), (12, ''Bo'', ''joined'')]" and ?t1.0 = 10 and ?t2.0 = 25]
  have a: "calculate_play_time ([(10, ''Al'', ''joined''), (12, ''Bo'', ''joined'')] @ [(25, ''Al'', ''left'')]) ''Al'' = Some 15"
    using h1 c0 by simp
  from calculate_play_time_pairing [where p = "''Al''" and pre = "[(12, ''Bo'', ''joined'')]" and ?t2.0 = 13 and post = "[(20, ''Bo'', ''left'')]"]
  have b: "calculate_play_time ([(12, ''Bo'', ''joined'')] @ (13, ''Al'', ''left'') # [(20, ''Bo'', ''left'')])
       = calculate_play_time ([(12, ''Bo'', ''joined'')] @ [(20, ''Bo'', ''left'')])"
    using h2 by blast
  from calculate_play_time_pairing [where p = "''Al''" and pre = "[]" and ?t1.0 = 1 and ?t2.0 = 20 and post = "[(30, ''Al'', ''left'')]" and mid = "[(12, ''Bo'', ''joined'')]"]
  have c: "calculate_play_time ([] @ (1, ''Al'', ''joined'') # [(12, ''Bo'', ''joined'')] @ (20, ''Al'', ''joined'') # [(30, ''Al'', ''left'')]) ''Al'' = Some 10"
    using h3 c3 by simp
  from h1 h2 h3 a b c show ?thesis by blast
qed

section \<open>The framing layer\<close>

subsection \<open>Packing, unpacking and the codec are inverse\<close>

lemma unat_byte: "n < 256 \<Longrightarrow> unat (of_nat n :: byte) = n"
  by (simp add: unat_of_nat)

lemma digits4:
  fixes u :: nat
  shows "u mod 256 + 256 * (u div 256 mod 256) + 65536 * (u div 65536 mod 256)
         + 16777216 * (u div 16777216) = u"
proof -
  have 1: "u = u mod 256 + 256 * (u div 256)" by simp
  have "u div 65536 = u div 256 div 256" using div_mult2_eq [of u 256 256] by simp
  then have 2: "u div 256 = u div 256 mod 256 + 256 * (u div 65536)" by simp
  have "u div 16777216 = u div 65536 div 256" using div_mult2_eq [of u 65536 256] by simp
  then have 3: "u div 65536 = u div 65536 mod 256 + 256 * (u div 16777216)" by simp
  from 1 2 3 show ?thesis by linarith
qed

lemma le32_value:
  assumes "u < 4294967296"
  shows "unat (of_nat (u mod 256) :: byte) + 256 * unat (of_nat (u div 256 mod 256) :: byte)
         + 65536 * unat (of_nat (u div 65536 mod 256) :: byte)
         + 16777216 * unat (of_nat (u div 16777216 mod 256) :: byte) = u"
proof -
  have "u div 16777216 < 256" using assms by (simp add: less_mult_imp_div_less)
  then have top: "u div 16777216 mod 256 = u div 16777216" by simp
  have b0: "unat (of_nat (u mod 256) :: byte) = u mod 256" by (rule unat_byte) simp
  have b1: "unat (of_nat (u div 256 mod 256) :: byte) = u div 256 mod 256"
    by (rule unat_byte) simp
  have b2: "unat (of_nat (u div 65536 mod 256) :: byte) = u div 65536 mod 256"
    by (rule unat_byte) simp
  have "unat (of_nat (u div 16777216 mod 256) :: byte) = u div 16777216 mod 256"
    by (rule unat_byte) simp
  then have b3: "unat (of_nat (u div 16777216 mod 256) :: byte) = u div 16777216"
    by (simp only: top)
  show ?thesis unfolding b0 b1 b2 b3 by (rule digits4)
qed

lemma unpack_i_le32: "u < 4294967296 \<Longrightarrow> unpack_i (le32 u) = Inr (signed32 u)"
  unfolding le32_def unpack_i.simps by (simp only: le32_value)

lemma signed32_mod:
  assumes "- 2147483648 \<le> n" "n \<le> 2147483647"
  shows "signed32 (nat (n mod 4294967296)) = n"
proof (cases "0 \<le> n")
  case True
  with assms have "n mod 4294967296 = n" by simp
  with True assms show ?thesis by (simp add: signed32_def)
next
  case False
  have "(n + 4294967296) mod 4294967296 = n + 4294967296"
    using assms False by (intro mod_pos_pos_trivial) linarith+
  then have m: "n mod 4294967296 = n + 4294967296" by simp
  have "\<not> nat (n + 4294967296) < 2147483648" using assms by linarith
  moreover have "int (nat (n + 4294967296)) - 4294967296 = n" using assms by linarith
  ultimately show ?thesis unfolding m signed32_def by (simp only: if_False)
qed

lemma unpack_pack_i: "pack_i n = Inr bs \<Longrightarrow> unpack_i bs = Inr n"
proof -
  assume a: "pack_i n = Inr bs"
  then have r: "- 2147483648 \<le> n" "n \<le> 2147483647" and bs: "bs = le32 (nat (n mod 4294967296))"
    by (auto simp: pack_i_def split: if_splits)
  have lt: "nat (n mod 4294967296) < 4294967296" by simp
  show ?thesis unfolding bs using unpack_i_le32 [OF lt] signed32_mod [OF r] by simp
qed

lemma length_le32 [simp]: "length (le32 u) = 4"
  by (simp add: le32_def)

lemma length_pack_i: "pack_i n = Inr bs \<Longrightarrow> length bs = 4"
  by (auto simp: pack_i_def split: if_splits)

lemma unpack_pack_ii: "pack_ii a b = Inr bs \<Longrightarrow> unpack_ii bs = Inr (a, b)"
  by (auto simp: pack_ii_def unpack_ii_def length_pack_i unpack_pack_i split: sum.splits)

lemma length_pack_ii: "pack_ii a b = Inr bs \<Longrightarrow> length bs = 8"
  by (auto simp: pack_ii_def length_pack_i split: sum.splits)





lemma utf8_decode_1:
  "unat b0 = c \<Longrightarrow> c < 0x80 \<Longrightarrow> utf8_decode (b0 # rest) = decoded c (utf8_decode rest)"
  by simp

lemma utf8_decode_2:
  "unat b0 = 0xC0 + h \<Longrightarrow> 2 \<le> h \<Longrightarrow> h < 32 \<Longrightarrow> unat b1 = 0x80 + l \<Longrightarrow> l < 64 \<Longrightarrow>
   utf8_decode (b0 # b1 # rest) = decoded (h * 64 + l) (utf8_decode rest)"
  by (simp add: is_cont_def)

lemma utf8_decode_3:
  "unat b0 = 0xE0 + h \<Longrightarrow> h < 16 \<Longrightarrow> unat b1 = 0x80 + m \<Longrightarrow> m < 64 \<Longrightarrow>
   unat b2 = 0x80 + l \<Longrightarrow> l < 64 \<Longrightarrow> (h = 0 \<longrightarrow> 32 \<le> m) \<Longrightarrow> (h = 13 \<longrightarrow> m < 32) \<Longrightarrow>
   utf8_decode (b0 # b1 # b2 # rest) = decoded (h * 4096 + m * 64 + l) (utf8_decode rest)"
  by (auto simp: is_cont_def)

lemma utf8_decode_4:
  "unat b0 = 0xF0 + h \<Longrightarrow> h < 5 \<Longrightarrow> unat b1 = 0x80 + k \<Longrightarrow> k < 64 \<Longrightarrow>
   unat b2 = 0x80 + m \<Longrightarrow> m < 64 \<Longrightarrow> unat b3 = 0x80 + l \<Longrightarrow> l < 64 \<Longrightarrow>
   (h = 0 \<longrightarrow> 16 \<le> k) \<Longrightarrow> (h = 4 \<longrightarrow> k < 16) \<Longrightarrow>
   utf8_decode (b0 # b1 # b2 # b3 # rest) =
     decoded (h * 262144 + k * 4096 + m * 64 + l) (utf8_decode rest)"
  by (auto simp: is_cont_def)

lemma digits64_3:
  fixes c :: nat
  shows "c div 4096 * 4096 + c div 64 mod 64 * 64 + c mod 64 = c"
proof -
  have 1: "c = c mod 64 + 64 * (c div 64)" by simp
  have "c div 4096 = c div 64 div 64" using div_mult2_eq [of c 64 64] by simp
  then have 2: "c div 64 = c div 64 mod 64 + 64 * (c div 4096)" by simp
  from 1 2 show ?thesis by linarith
qed

lemma digits64_4:
  fixes c :: nat
  shows "c div 262144 * 262144 + c div 4096 mod 64 * 4096 + c div 64 mod 64 * 64 + c mod 64 = c"
proof -
  have 1: "c = c mod 64 + 64 * (c div 64)" by simp
  have "c div 4096 = c div 64 div 64" using div_mult2_eq [of c 64 64] by simp
  then have 2: "c div 64 = c div 64 mod 64 + 64 * (c div 4096)" by simp
  have "c div 262144 = c div 4096 div 64" using div_mult2_eq [of c 4096 64] by simp
  then have 3: "c div 4096 = c div 4096 mod 64 + 64 * (c div 262144)" by simp
  from 1 2 3 show ?thesis by linarith
qed

lemma utf8_decode_encode_char:
  assumes "utf8_encode_char c = Inr bs"
  shows "utf8_decode (bs @ rest) = decoded c (utf8_decode rest)"
proof -
  consider (a) "c < 0x80" | (b) "0x80 \<le> c" "c < 0x800"
    | (c) "0x800 \<le> c" "c < 0x10000" "\<not> (0xD800 \<le> c \<and> c \<le> 0xDFFF)"
    | (d) "0x10000 \<le> c" "c < 0x110000"
    using assms by (auto simp: utf8_encode_char_def split: if_splits)
  then show ?thesis
  proof cases
    case a
    then have bs: "bs = [of_nat c]" using assms by (simp add: utf8_encode_char_def)
    have u0: "unat (of_nat c :: byte) = c" using a by (intro unat_byte) simp
    show ?thesis unfolding bs using utf8_decode_1 [OF u0 a] by simp
  next
    case b
    then have n: "\<not> c < 0x80" by simp
    have bs: "bs = [of_nat (0xC0 + c div 64), of_nat (0x80 + c mod 64)]"
      using assms unfolding utf8_encode_char_def
      by (simp only: n b if_False if_True sum.inject)
    have r: "2 \<le> c div 64" "c div 64 < 32" "c mod 64 < 64" using b by simp_all
    have u0: "unat (of_nat (0xC0 + c div 64) :: byte) = 0xC0 + c div 64"
      using r by (intro unat_byte) simp
    have u1: "unat (of_nat (0x80 + c mod 64) :: byte) = 0x80 + c mod 64"
      using r by (intro unat_byte) simp
    have v: "c div 64 * 64 + c mod 64 = c" by simp
    show ?thesis unfolding bs using utf8_decode_2 [OF u0 r(1) r(2) u1 r(3), of rest]
      by (simp only: v append.simps)
  next
    case c
    then have n: "\<not> c < 0x80" "\<not> c < 0x800" by simp_all
    have bs: "bs = [of_nat (0xE0 + c div 4096), of_nat (0x80 + c div 64 mod 64),
                   of_nat (0x80 + c mod 64)]"
      using assms unfolding utf8_encode_char_def
      by (simp only: n c if_False if_True sum.inject)
    have r: "c div 4096 < 16" "c div 64 mod 64 < 64" "c mod 64 < 64"
      using c by (simp_all add: less_mult_imp_div_less)
    have u0: "unat (of_nat (0xE0 + c div 4096) :: byte) = 0xE0 + c div 4096"
      using r by (intro unat_byte) simp
    have u1: "unat (of_nat (0x80 + c div 64 mod 64) :: byte) = 0x80 + c div 64 mod 64"
      using r by (intro unat_byte) simp
    have u2: "unat (of_nat (0x80 + c mod 64) :: byte) = 0x80 + c mod 64"
      using r by (intro unat_byte) simp
    note v = digits64_3 [of c]
    have lo: "c div 4096 = 0 \<longrightarrow> 32 \<le> c div 64 mod 64" using c r v by linarith
    have hi: "c div 4096 = 13 \<longrightarrow> c div 64 mod 64 < 32" using c r v by linarith
    show ?thesis unfolding bs
      using utf8_decode_3 [OF u0 r(1) u1 r(2) u2 r(3) lo hi, of rest]
      by (simp only: v append.simps)
  next
    case d
    then have n: "\<not> c < 0x80" "\<not> c < 0x800" "\<not> c < 0x10000" by simp_all
    have bs: "bs = [of_nat (0xF0 + c div 262144), of_nat (0x80 + c div 4096 mod 64),
             of_nat (0x80 + c div 64 mod 64), of_nat (0x80 + c mod 64)]"
      using assms unfolding utf8_encode_char_def
      by (simp only: n d if_False if_True sum.inject)
    have r: "c div 262144 < 5" "c div 4096 mod 64 < 64" "c div 64 mod 64 < 64" "c mod 64 < 64"
      using d by (simp_all add: less_mult_imp_div_less)
    have u0: "unat (of_nat (0xF0 + c div 262144) :: byte) = 0xF0 + c div 262144"
      using r by (intro unat_byte) simp
    have u1: "unat (of_nat (0x80 + c div 4096 mod 64) :: byte) = 0x80 + c div 4096 mod 64"
      using r by (intro unat_byte) simp
    have u2: "unat (of_nat (0x80 + c div 64 mod 64) :: byte) = 0x80 + c div 64 mod 64"
      using r by (intro unat_byte) simp
    have u3: "unat (of_nat (0x80 + c mod 64) :: byte) = 0x80 + c mod 64"
      using r by (intro unat_byte) simp
    note v = digits64_4 [of c]
    have lo: "c div 262144 = 0 \<longrightarrow> 16 \<le> c div 4096 mod 64" using d r v by linarith
    have hi: "c div 262144 = 4 \<longrightarrow> c div 4096 mod 64 < 16" using d r v by linarith
    show ?thesis unfolding bs
      using utf8_decode_4 [OF u0 r(1) u1 r(2) u2 r(3) u3 r(4) lo hi, of rest]
      by (simp only: v append.simps)
  qed
qed

lemma utf8_decode_encode: "utf8_encode s = Inr bs \<Longrightarrow> utf8_decode bs = Inr s"
proof (induction s arbitrary: bs)
  case Nil
  then show ?case by simp
next
  case (Cons c s)
  then obtain b r where b: "utf8_encode_char c = Inr b" and r: "utf8_encode s = Inr r"
    and bs: "bs = b @ r"
    by (auto split: sum.splits)
  show ?case unfolding bs
    by (simp add: utf8_decode_encode_char [OF b] Cons.IH [OF r] decoded_def)
qed

lemma utf8_encode_ascii: "c < 128 \<Longrightarrow> utf8_encode (replicate n c) = Inr (replicate n (of_nat c))"
  by (induction n) (simp_all add: utf8_encode_char_def)

lemma request_frame_response: "request_frame out_type out_data = response_frame 0 out_type out_data"
  by (simp add: request_frame_def response_frame_def)

lemma response_frame_parts:
  assumes "response_frame i k s = Inr f"
  obtains hdr body enc where "f = hdr @ body" "length hdr = 4"
    "unpack_i hdr = Inr (int (length body))" "utf8_encode s = Inr enc"
    "parse_body body = Inr (i, k, enc, [0, 0])" "length body = 10 + length enc"
proof -
  from assms obtain ids enc hdr where ids: "pack_ii i k = Inr ids" and enc: "utf8_encode s = Inr enc"
    and hdr: "pack_i (int (length (ids @ enc @ [0, 0]))) = Inr hdr" and f: "f = hdr @ ids @ enc @ [0, 0]"
    by (auto simp: response_frame_def Let_def split: sum.splits)
  let ?body = "ids @ enc @ [0, 0]"
  have l8: "length ids = 8" by (rule length_pack_ii [OF ids])
  have pb: "parse_body ?body = Inr (i, k, enc, [0, 0])"
    by (simp add: parse_body_def l8 unpack_pack_ii [OF ids])
  show ?thesis
    by (rule that [of hdr ?body enc])
      (simp_all add: f length_pack_i [OF hdr] unpack_pack_i [OF hdr] enc pb l8)
qed

lemmas frame_simps = request_frame_def response_frame_def pack_ii_def pack_i_def le32_def
  utf8_encode_char_def str_of_def

lemma request_list:
  "request_frame 2 (str_of ''list'') = Inr [14, 0, 0, 0, 0, 0, 0, 0, 2, 0, 0, 0, 108, 105, 115, 116, 0, 0]"
  by (simp add: frame_simps)

lemma request_login:
  "request_frame 3 (str_of ''secret'') =
     Inr [16, 0, 0, 0, 0, 0, 0, 0, 3, 0, 0, 0, 115, 101, 99, 114, 101, 116, 0, 0]"
  by (simp add: frame_simps)

text \<open>
  Claim C1, amended. For every request payload \<open>P\<close> with a UTF-8 encoding of at most
  \<open>2\<^sup>3\<^sup>1 - 11\<close> bytes (and a type within 32 bits, such as LOGIN = 3 and
  COMMAND = 2), serializing the request produces a frame: its first four bytes declare
  the length \<open>4 + 4 + byte-length(P) + 2\<close>, which is the length of the rest of the
  frame, and the client's own parsing of that rest yields the id 0, the type, the UTF-8
  bytes of \<open>P\<close> and the two zero bytes; decoding the bytes gives back \<open>P\<close>.
\<close>

theorem request_frame_round_trip:
  assumes "utf8_encode P = Inr bs" "length bs \<le> 2147483637"
    and "- 2147483648 \<le> out_type" "out_type \<le> 2147483647"
  shows "\<exists>frame. request_frame out_type P = Inr frame
     \<and> unpack_i (take 4 frame) = Inr (4 + 4 + int (length bs) + 2)
     \<and> int (length (drop 4 frame)) = 4 + 4 + int (length bs) + 2
     \<and> parse_body (drop 4 frame) = Inr (0, out_type, bs, [0, 0])
     \<and> utf8_decode bs = Inr P"
proof -
  obtain ids where ids: "pack_ii 0 out_type = Inr ids"
    using assms(3,4) by (auto simp: pack_ii_def pack_i_def)
  have "int (length (ids @ bs @ [0, 0])) \<le> 2147483647"
    using assms(2) length_pack_ii [OF ids] by simp
  then obtain hdr where hdr: "pack_i (int (length (ids @ bs @ [0, 0]))) = Inr hdr"
    by (auto simp: pack_i_def)
  have rf: "request_frame out_type P = Inr (hdr @ ids @ bs @ [0, 0])"
    unfolding request_frame_def ids assms(1) Let_def sum.case hdr ..
  then have "response_frame 0 out_type P = Inr (hdr @ ids @ bs @ [0, 0])"
    by (simp add: request_frame_response)
  from response_frame_parts [OF this] obtain hdr' body enc where
    f: "hdr @ ids @ bs @ [0, 0] = hdr' @ body" and l4: "length hdr' = 4"
    and u: "unpack_i hdr' = Inr (int (length body))" and e: "utf8_encode P = Inr enc"
    and pb: "parse_body body = Inr (0, out_type, enc, [0, 0])" and lb: "length body = 10 + length enc"
    by blast
  have enc: "enc = bs" using e assms(1) by simp
  have t: "take 4 (hdr' @ body) = hdr'" "drop 4 (hdr' @ body) = body" using l4 by simp_all
  show ?thesis
    unfolding rf f
    by (intro exI [of _ "hdr' @ body"] conjI) (simp_all only: t u pb lb enc utf8_decode_encode [OF assms(1)], simp_all)
qed

theorem request_frame_round_trip_witness:
  "utf8_encode (str_of ''list'') = Inr [108, 105, 115, 116]
   \<and> (\<exists>frame. request_frame 2 (str_of ''list'') = Inr frame
     \<and> unpack_i (take 4 frame) = Inr 14
     \<and> int (length (drop 4 frame)) = 14
     \<and> parse_body (drop 4 frame) = Inr (0, 2, [108, 105, 115, 116], [0, 0])
     \<and> utf8_decode [108, 105, 115, 116] = Inr (str_of ''list''))"
proof -
  have e: "utf8_encode (str_of ''list'') = Inr [108, 105, 115, 116]"
    by (simp add: str_of_def utf8_encode_char_def)
  from request_frame_round_trip [OF e, of 2] e show ?thesis by simp
qed

text \<open>
  Claim C1 as stated, for every payload, fails: for the payload of \<open>2\<^sup>3\<^sup>1 - 10\<close>
  letters A the length \<open>2\<^sup>3\<^sup>1\<close> does not fit the format \<^verbatim>\<open><i\<close>,
  \<^verbatim>\<open>struct.pack\<close> raises and no frame is produced.
\<close>

theorem request_frame_length_overflow: "request_frame 2 (replicate 2147483638 65) = Inl StructError"
proof -
  have e: "utf8_encode (replicate 2147483638 65) = Inr (replicate 2147483638 (of_nat 65))"
    by (rule utf8_encode_ascii) simp
  have p: "pack_ii 0 2 = Inr [0, 0, 0, 0, 2, 0, 0, 0]"
    by (simp add: pack_ii_def pack_i_def le32_def)
  show ?thesis
    unfolding request_frame_def e p by (simp add: pack_i_def)
qed

section \<open>The receiving loop\<close>

subsection \<open>One round of each loop\<close>

lemma read_loop_done: "\<not> int (length data) < n \<Longrightarrow> read_loop sk n data = Some (Inr data, sk)"
  by (subst read_loop.simps) simp

lemma read_loop_step:
  "int (length data) < n \<Longrightarrow> sock_recv sk (nat (n - int (length data))) = Some (Inr chunk, sk')
   \<Longrightarrow> read_loop sk n data = read_loop sk' n (data @ chunk)"
  by (subst read_loop.simps) simp

lemma read_loop_raise:
  "int (length data) < n \<Longrightarrow> sock_recv sk (nat (n - int (length data))) = Some (Inl e, sk')
   \<Longrightarrow> read_loop sk n data = Some (Inl e, sk')"
  by (subst read_loop.simps) simp

lemma read_loop_block:
  "int (length data) < n \<Longrightarrow> sock_recv sk (nat (n - int (length data))) = None
   \<Longrightarrow> read_loop sk n data = None"
  by (subst read_loop.simps) simp

lemmas run_simps = MCRcon_read_def read_packet_def read_loop_done read_loop_step read_loop_raise
  read_loop_block sock_recv_def signal_alarm_def signed32_def

lemma recv_packets_raise:
  "read_packet tmo sk = Some (Inl e, sk2) \<Longrightarrow> recv_packets tmo sk acc = Some (Inl e, sk2)"
  by (subst recv_packets.simps) simp

lemma recv_packets_block:
  "read_packet tmo sk = None \<Longrightarrow> recv_packets tmo sk acc = None"
  by (subst recv_packets.simps) simp


lemma recv_packets_login:
  "read_packet tmo sk = Some (Inr p, sk2) \<Longrightarrow> parse_body p = Inr (- 1, k, part, [0, 0])
   \<Longrightarrow> recv_packets tmo sk acc = Some (Inl login_failed, sk2)"
  by (subst recv_packets.simps) simp

lemma recv_packets_undecoded:
  "read_packet tmo sk = Some (Inr p, sk2) \<Longrightarrow> parse_body p = Inr (i, k, part, [0, 0])
   \<Longrightarrow> i \<noteq> - 1 \<Longrightarrow> utf8_decode part = Inl e
   \<Longrightarrow> recv_packets tmo sk acc = Some (Inl e, sk2)"
  by (subst recv_packets.simps) simp


lemma recv_packets_more:
  "read_packet tmo sk = Some (Inr p, sk2) \<Longrightarrow> parse_body p = Inr (i, k, part, [0, 0])
   \<Longrightarrow> i \<noteq> - 1 \<Longrightarrow> utf8_decode part = Inr s \<Longrightarrow> select_readable sk2
   \<Longrightarrow> recv_packets tmo sk acc = recv_packets tmo sk2 (acc @ s)"
  by (subst recv_packets.simps) simp

lemma loop_at_recv_packets:
  "loop_at tmo sk0 sk in_data \<Longrightarrow> recv_packets tmo sk0 [] = recv_packets tmo sk in_data"
  by (induction rule: loop_at.induct) (auto simp: recv_packets_more)

lemma MCRcon_send_loop:
  assumes "socket self = Some ska" "connected ska" "request_frame out_type out_data = Inr frame"
    and "loop_at (timeout self) (ska\<lparr>sent := sent ska @ frame\<rparr>) sk in_data"
  shows "MCRcon_send self out_type out_data =
     map_option (\<lambda>(r, sk'). (r, self\<lparr>socket := Some sk'\<rparr>)) (recv_packets (timeout self) sk in_data)"
  using assms(1-3) loop_at_recv_packets [OF assms(4)]
  by (simp add: MCRcon_send_def sock_send_def)

lemma sock_recv_connected: "sock_recv sk k = Some (r, sk') \<Longrightarrow> connected sk' = connected sk"
  by (auto simp: sock_recv_def split: if_splits option.splits nat.splits list.splits event.splits)

lemma read_loop_connected:
  assumes "read_loop sk n data = Some y"
  shows "connected (snd y) = connected sk"
proof (rule read_loop.raw_induct [OF _ assms])
  fix f sk n data y
  assume ih: "\<And>sk n data y. f sk n data = Some y \<Longrightarrow> connected (snd y) = connected sk"
    and eq: "(if int (length data) < n
      then Option.bind (sock_recv sk (nat (n - int (length data))))
           (\<lambda>(r, sk'). case r of Inl e \<Rightarrow> Some (Inl e, sk')
               | Inr chunk \<Rightarrow> f sk' n (data @ chunk))
      else Some (Inr data, sk)) = Some y"
  show "connected (snd y) = connected sk"
  proof (cases "int (length data) < n")
    case False
    with eq show ?thesis by auto
  next
    case True
    with eq obtain r sk' where r: "sock_recv sk (nat (n - int (length data))) = Some (r, sk')"
      and c: "(case r of Inl e \<Rightarrow> Some (Inl e, sk') | Inr chunk \<Rightarrow> f sk' n (data @ chunk)) = Some y"
      by (auto simp: bind_eq_Some_conv)
    from sock_recv_connected [OF r] have k: "connected sk' = connected sk" .
    show ?thesis
    proof (cases r)
      case (Inl e)
      with c k show ?thesis by auto
    next
      case (Inr chunk)
      with c have "f sk' n (data @ chunk) = Some y" by simp
      from ih [OF this] k show ?thesis by simp
    qed
  qed
qed

lemma MCRcon_read_connected:
  assumes "MCRcon_read tmo sk n = Some (r, sk')"
  shows "connected sk' = connected sk"
proof -
  from assms obtain r0 sk0 where l: "read_loop (signal_alarm tmo sk) n [] = Some (r0, sk0)"
    and e: "(case r0 of Inl e \<Rightarrow> Some (Inl e, sk0) | Inr data \<Rightarrow> Some (Inr data, signal_alarm 0 sk0)) = Some (r, sk')"
    by (auto simp: MCRcon_read_def bind_eq_Some_conv)
  from read_loop_connected [OF l] have "connected sk0 = connected sk" by (simp add: signal_alarm_def)
  with e show ?thesis by (cases r0) (auto simp: signal_alarm_def)
qed

lemma read_packet_connected:
  assumes "read_packet tmo sk = Some (r, sk2)"
  shows "connected sk2 = connected sk"
proof -
  from assms obtain r1 sk1 where a: "MCRcon_read tmo sk 4 = Some (r1, sk1)"
    and b: "(case r1 of Inl e \<Rightarrow> Some (Inl e, sk1) | Inr hdr \<Rightarrow>
       (case unpack_i hdr of Inl e \<Rightarrow> Some (Inl e, sk1)
        | Inr in_length \<Rightarrow> MCRcon_read tmo sk1 in_length)) = Some (r, sk2)"
    by (auto simp: read_packet_def bind_eq_Some_conv)
  from MCRcon_read_connected [OF a] have k: "connected sk1 = connected sk" .
  show ?thesis
  proof (cases r1)
    case (Inl e)
    with b k show ?thesis by auto
  next
    case (Inr hdr)
    show ?thesis
    proof (cases "unpack_i hdr")
      case (Inl e)
      with b k \<open>r1 = Inr hdr\<close> show ?thesis by auto
    next
      case (Inr in_length)
      with b \<open>r1 = Inr hdr\<close> have "MCRcon_read tmo sk1 in_length = Some (r, sk2)" by simp
      from MCRcon_read_connected [OF this] k show ?thesis by simp
    qed
  qed
qed

lemma loop_at_connected: "loop_at tmo sk0 sk acc \<Longrightarrow> connected sk = connected sk0"
  by (induction rule: loop_at.induct) (auto dest: read_packet_connected)

lemma MCRcon_send_login_failed:
  assumes "socket self = Some ska" "connected ska" "request_frame out_type out_data = Inr frame"
    and "loop_at (timeout self) (ska\<lparr>sent := sent ska @ frame\<rparr>) sk in_data"
    and "read_packet (timeout self) sk = Some (Inr in_payload, sk2)"
    and "unpack_ii (take 8 in_payload) = Inr (- 1, in_type)"
    and "drop (length in_payload - 2) in_payload = [0, 0]"
  shows "MCRcon_send self out_type out_data = Some (Inl login_failed, self\<lparr>socket := Some sk2\<rparr>)"
proof -
  have "parse_body in_payload =
      Inr (- 1, in_type, drop 8 (take (length in_payload - 2) in_payload), [0, 0])"
    by (simp add: parse_body_def assms(6,7))
  from recv_packets_login [OF assms(5) this] show ?thesis
    by (simp add: MCRcon_send_loop [OF assms(1-4)])
qed



text \<open>
  Claim C4. Whenever the receiving loop of a call of \<^verbatim>\<open>_send\<close> reads a packet with a
  valid padding whose correlation id is \<open>-1\<close>, the call raises
  \<^verbatim>\<open>MCRconException("Login failed")\<close>, for every payload of the packet and every type of
  the request (LOGIN or COMMAND); it does not return normally.
\<close>

theorem login_failed_raises:
  assumes "socket self = Some ska" "connected ska" "request_frame out_type out_data = Inr frame"
    and "loop_at (timeout self) (ska\<lparr>sent := sent ska @ frame\<rparr>) sk in_data"
    and "read_packet (timeout self) sk = Some (Inr in_payload, sk2)"
    and "unpack_ii (take 8 in_payload) = Inr (- 1, in_type)"
    and "drop (length in_payload - 2) in_payload = [0, 0]"
  shows "MCRcon_send self out_type out_data = Some (Inl login_failed, self\<lparr>socket := Some sk2\<rparr>)"
proof -
  have pb: "parse_body in_payload =
      Inr (- 1, in_type, drop 8 (take (length in_payload - 2) in_payload), [0, 0])"
    by (simp add: parse_body_def assms(6,7))
  have "recv_packets (timeout self) sk in_data = Some (Inl login_failed, sk2)"
    by (rule recv_packets_login [OF assms(5) pb])
  moreover have "MCRcon_send self out_type out_data =
      map_option (\<lambda>(r, sk'). (r, self\<lparr>socket := Some sk'\<rparr>))
        (recv_packets (timeout self) sk in_data)"
    by (rule MCRcon_send_loop [OF assms(1-4)])
  ultimately show ?thesis by simp
qed

theorem login_failed_raises_witness:
  "MCRcon_send
     (session (Some (peer [Data [10, 0, 0, 0, 255, 255, 255, 255, 2, 0, 0, 0, 0, 0]])))
     3 (str_of ''secret'') =
   Some (Inl login_failed,
     session (Some ((peer [])\<lparr>sent :=
       [16, 0, 0, 0, 0, 0, 0, 0, 3, 0, 0, 0, 115, 101, 99, 114, 101, 116, 0, 0]\<rparr>)))"
proof -
  let ?req = "[16, 0, 0, 0, 0, 0, 0, 0, 3, 0, 0, 0, 115, 101, 99, 114, 101, 116, 0, 0] :: bytes"
  let ?sk0 = "peer [Data [10, 0, 0, 0, 255, 255, 255, 255, 2, 0, 0, 0, 0, 0]]"
  let ?sk2 = "(peer [])\<lparr>sent := ?req\<rparr>"
  have a: "socket (session (Some ?sk0)) = Some ?sk0" by (simp add: session_def)
  have b: "connected ?sk0" by (simp add: peer_def)
  have t: "timeout (session (Some ?sk0)) = 5" by (simp add: session_def)
  have rp: "read_packet 5 (?sk0\<lparr>sent := sent ?sk0 @ ?req\<rparr>)
      = Some (Inr [255, 255, 255, 255, 2, 0, 0, 0, 0, 0], ?sk2)"
    by (simp add: peer_def run_simps)
  have u: "unpack_ii (take 8 [255, 255, 255, 255, 2, 0, 0, 0, 0, 0]) = Inr (- 1, 2)"
    by (simp add: unpack_ii_def signed32_def)
  from login_failed_raises [OF a b request_login loop_at.first rp [folded t] u]
  show ?thesis by (simp add: session_def)
qed



text \<open>
  Claim C6, amended. When \<^verbatim>\<open>connect()\<close> receives a login-failure response (correlation
  id \<open>-1\<close>, valid padding), it raises \<^verbatim>\<open>MCRconException("Login failed")\<close> and the
  session keeps the socket it has opened, still connected; the socket is released only
  by a later \<^verbatim>\<open>disconnect()\<close>.
\<close>

theorem connect_login_failure_keeps_socket:
  assumes "connected sk0" "request_frame 3 (password self) = Inr frame"
    and "loop_at (timeout self) (sk0\<lparr>sent := sent sk0 @ frame\<rparr>) sk in_data"
    and "read_packet (timeout self) sk = Some (Inr in_payload, sk2)"
    and "unpack_ii (take 8 in_payload) = Inr (- 1, in_type)"
    and "drop (length in_payload - 2) in_payload = [0, 0]"
  shows "MCRcon_connect self (Inr sk0) = Some (Inl login_failed, self\<lparr>socket := Some sk2\<rparr>)
     \<and> connected sk2
     \<and> socket (MCRcon_disconnect (self\<lparr>socket := Some sk2\<rparr>)) = None"
proof -
  let ?self = "self\<lparr>socket := Some sk0\<rparr>"
  have s: "socket ?self = Some sk0" "timeout ?self = timeout self" by simp_all
  have la: "loop_at (timeout ?self) (sk0\<lparr>sent := sent sk0 @ frame\<rparr>) sk in_data"
    using assms(3) by simp
  have rp: "read_packet (timeout ?self) sk = Some (Inr in_payload, sk2)" using assms(4) by simp
  have "MCRcon_send ?self 3 (password self) = Some (Inl login_failed, ?self\<lparr>socket := Some sk2\<rparr>)"
    by (rule MCRcon_send_login_failed [OF s(1) assms(1) assms(2) la rp assms(5) assms(6)])
  then have 1: "MCRcon_connect self (Inr sk0) = Some (Inl login_failed, self\<lparr>socket := Some sk2\<rparr>)"
    by (simp add: MCRcon_connect_def)
  have "connected sk = connected sk0" using loop_at_connected [OF assms(3)] by simp
  with read_packet_connected [OF assms(4)] assms(1) have 2: "connected sk2" by simp
  show ?thesis using 1 2 by (simp add: MCRcon_disconnect_def)
qed

theorem connect_login_failure_keeps_socket_witness:
  "MCRcon_connect (session None)
      (Inr (peer [Data [10, 0, 0, 0, 255, 255, 255, 255, 2, 0, 0, 0, 0, 0]])) =
   Some (Inl login_failed,
     session (Some ((peer [])\<lparr>sent :=
       [16, 0, 0, 0, 0, 0, 0, 0, 3, 0, 0, 0, 115, 101, 99, 114, 101, 116, 0, 0]\<rparr>)))
   \<and> connected ((peer [])\<lparr>sent :=
       [16, 0, 0, 0, 0, 0, 0, 0, 3, 0, 0, 0, 115, 101, 99, 114, 101, 116, 0, 0]\<rparr>)
   \<and> socket (MCRcon_disconnect (session (Some ((peer [])\<lparr>sent :=
       [16, 0, 0, 0, 0, 0, 0, 0, 3, 0, 0, 0, 115, 101, 99, 114, 101, 116, 0, 0]\<rparr>)))) = None"
proof -
  let ?req = "[16, 0, 0, 0, 0, 0, 0, 0, 3, 0, 0, 0, 115, 101, 99, 114, 101, 116, 0, 0] :: bytes"
  let ?sk0 = "peer [Data [10, 0, 0, 0, 255, 255, 255, 255, 2, 0, 0, 0, 0, 0]]"
  let ?sk2 = "(peer [])\<lparr>sent := ?req\<rparr>"
  have b: "connected ?sk0" by (simp add: peer_def)
  have t: "timeout (session None) = 5" and pw: "password (session None) = str_of ''secret''"
    by (simp_all add: session_def)
  have rp: "read_packet 5 (?sk0\<lparr>sent := sent ?sk0 @ ?req\<rparr>)
      = Some (Inr [255, 255, 255, 255, 2, 0, 0, 0, 0, 0], ?sk2)"
    by (simp add: peer_def run_simps)
  have u: "unpack_ii (take 8 [255, 255, 255, 255, 2, 0, 0, 0, 0, 0]) = Inr (- 1, 2)"
    by (simp add: unpack_ii_def signed32_def)
  from connect_login_failure_keeps_socket [OF b request_login [folded pw] loop_at.first rp [folded t] u]
  show ?thesis by (simp add: session_def)
qed

text \<open>
  Claim C6 as stated fails: after a connect that is answered by a login failure, the
  session holds the connected socket.
\<close>

theorem connect_login_failure_socket_open:
  "MCRcon_connect (session None)
      (Inr (peer [Data [10, 0, 0, 0, 255, 255, 255, 255, 2, 0, 0, 0, 0, 0]])) =
   Some (Inl (MCRconException ''Login failed''),
     session (Some \<lparr>connected = True, rbuf = [], eof = False, pending = [],
       sent = [16, 0, 0, 0, 0, 0, 0, 0, 3, 0, 0, 0, 115, 101, 99, 114, 101, 116, 0, 0],
       alarm = None, spin_rate = 1\<rparr>))"
proof -
  let ?req = "[16, 0, 0, 0, 0, 0, 0, 0, 3, 0, 0, 0, 115, 101, 99, 114, 101, 116, 0, 0] :: bytes"
  let ?sk0 = "peer [Data [10, 0, 0, 0, 255, 255, 255, 255, 2, 0, 0, 0, 0, 0]]"
  let ?sk2 = "(peer [])\<lparr>sent := ?req\<rparr>"
  have rp: "read_packet 5 (?sk0\<lparr>sent := sent ?sk0 @ ?req\<rparr>)
      = Some (Inr [255, 255, 255, 255, 2, 0, 0, 0, 0, 0], ?sk2)"
    by (simp add: peer_def run_simps)
  have pb: "parse_body [255, 255, 255, 255, 2, 0, 0, 0, 0, 0] = Inr (- 1, 2, [], [0, 0])"
    by (simp add: parse_body_def unpack_ii_def signed32_def)
  show ?thesis
    using recv_packets_login [OF rp pb, of "[]"] request_login
    by (simp add: MCRcon_connect_def MCRcon_send_def session_def sock_send_def peer_def
        login_failed_def)
qed

text \<open>
  Claim C8. On a session without a socket (just created, or after \<^verbatim>\<open>disconnect()\<close>),
  \<^verbatim>\<open>command(text)\<close> raises \<^verbatim>\<open>MCRconException("Must connect before sending data")\<close>
  and leaves the session as it was: there is no socket on which a byte could be sent or
  received.
\<close>

theorem command_before_connect:
  "(socket self = None \<longrightarrow> MCRcon_command self command = Some (Inl must_connect, self))
   \<and> MCRcon_command (MCRcon_init h pw p t) command = Some (Inl must_connect, MCRcon_init h pw p t)
   \<and> MCRcon_command (MCRcon_disconnect self) command =
       Some (Inl must_connect, MCRcon_disconnect self)"
  by (auto simp: MCRcon_command_def MCRcon_send_def MCRcon_init_def MCRcon_disconnect_def
      split: option.splits)

theorem command_before_connect_witness:
  "socket (session None) = None
   \<and> MCRcon_command (session None) (str_of ''list'') = Some (Inl must_connect, session None)"
  using command_before_connect [of "session None" "str_of ''list''"] by (simp add: session_def)

subsection \<open>Reading from a stream that arrives in chunks\<close>

lemma buffer_at_0 [simp]: "buffer_at 0 b cs = (b, cs)"
  by (cases cs) auto

lemma buffer_at_within: "p \<le> length b \<Longrightarrow> buffer_at p b cs = (drop p b, cs)"
  by (cases cs) auto

lemma buffer_at_beyond: "length b < p \<Longrightarrow> buffer_at p b cs = buffer_at (p - length b) [] cs"
  by (cases cs) auto

lemma buffer_at_after_recv:
  "buffer_at (k - min k (length c)) (drop k c) cs = buffer_at k c cs"
proof (cases "k \<le> length c")
  case True
  then show ?thesis by (simp add: buffer_at_within min_def)
next
  case False
  then show ?thesis using buffer_at_beyond [of c k cs] by (simp add: min_def)
qed

lemma sock_recv_buffered:
  "connected sk \<Longrightarrow> rbuf sk \<noteq> [] \<Longrightarrow>
   sock_recv sk k = Some (Inr (take k (rbuf sk)), sk\<lparr>rbuf := drop k (rbuf sk)\<rparr>)"
  by (simp add: sock_recv_def)

lemma sock_recv_arrival:
  "connected sk \<Longrightarrow> \<not> eof sk \<Longrightarrow> rbuf sk = [] \<Longrightarrow> pending sk = Data c # evs \<Longrightarrow>
   sock_recv sk k = Some (Inr (take k c), sk\<lparr>rbuf := drop k c, pending := evs\<rparr>)"
  by (simp add: sock_recv_def)

lemma read_loop_stream:
  assumes "connected sk" "\<not> eof sk" "pending sk = map Data cs @ rest"
    and "nat (n - int (length data)) \<le> length (rbuf sk @ concat cs)"
  shows "read_loop sk n data =
     Some (Inr (data @ take (nat (n - int (length data))) (rbuf sk @ concat cs)),
           sk\<lparr>rbuf := fst (buffer_at (nat (n - int (length data))) (rbuf sk) cs),
              pending := map Data (snd (buffer_at (nat (n - int (length data))) (rbuf sk) cs)) @ rest\<rparr>)"
  using assms
proof (induction cs arbitrary: sk data)
  case Nil
  define k where "k = nat (n - int (length data))"
  show ?case
  proof (cases "k = 0")
    case True
    then have "\<not> int (length data) < n" by (simp add: k_def)
    with True Nil show ?thesis by (simp add: read_loop_done k_def [symmetric])
  next
    case False
    then have lt: "int (length data) < n" by (simp add: k_def)
    from False Nil have ne: "rbuf sk \<noteq> []" and le: "k \<le> length (rbuf sk)" by (auto simp: k_def)
    have fin: "\<not> int (length (data @ take k (rbuf sk))) < n" using le lt by (simp add: k_def min_def)
    show ?thesis
      using read_loop_step [OF lt sock_recv_buffered [OF Nil.prems(1) ne], folded k_def]
        read_loop_done [OF fin] Nil.prems(3) le
      by (simp add: k_def [symmetric])
  qed
next
  case (Cons c cs)
  define k where "k = nat (n - int (length data))"
  have empty: "read_loop sk' n data' =
     Some (Inr (data' @ take k' (c @ concat cs)),
           sk'\<lparr>rbuf := fst (buffer_at k' c cs), pending := map Data (snd (buffer_at k' c cs)) @ rest\<rparr>)"
    if h: "connected sk'" "\<not> eof sk'" "pending sk' = map Data (c # cs) @ rest" "rbuf sk' = []"
      "k' = nat (n - int (length data'))" "0 < k'" "k' \<le> length (c @ concat cs)"
    for sk' data' k'
  proof -
    have lt: "int (length data') < n" using h by simp
    have p: "pending sk' = Data c # (map Data cs @ rest)" using h by simp
    let ?sk1 = "sk'\<lparr>rbuf := drop k' c, pending := map Data cs @ rest\<rparr>"
    let ?d1 = "data' @ take k' c"
    have k1: "nat (n - int (length ?d1)) = k' - min k' (length c)"
      using h(5) lt by (simp add: min_def) linarith
    have step: "read_loop sk' n data' = read_loop ?sk1 n ?d1"
      using read_loop_step [OF lt sock_recv_arrival [OF h(1) h(2) h(4) p]] h(5) by simp
    have b1: "nat (n - int (length ?d1)) \<le> length (rbuf ?sk1 @ concat cs)"
      unfolding k1 using h(7) by (auto simp: min_def)
    have ih: "read_loop ?sk1 n ?d1 =
       Some (Inr (?d1 @ take (k' - min k' (length c)) (drop k' c @ concat cs)),
             ?sk1\<lparr>rbuf := fst (buffer_at (k' - min k' (length c)) (drop k' c) cs),
                   pending := map Data (snd (buffer_at (k' - min k' (length c)) (drop k' c) cs)) @ rest\<rparr>)"
      using Cons.IH [of ?sk1 ?d1, OF _ _ _ b1] h(1) h(2) unfolding k1 by simp
    have data: "take k' c @ take (k' - min k' (length c)) (drop k' c @ concat cs) = take k' (c @ concat cs)"
      by (cases "k' \<le> length c") (simp_all add: min_def)
    show ?thesis unfolding step ih buffer_at_after_recv using data by simp
  qed
  show ?case
  proof (cases "k = 0")
    case True
    then have "\<not> int (length data) < n" by (simp add: k_def)
    with True show ?thesis using Cons.prems(3) by (simp add: read_loop_done k_def [symmetric])
  next
    case False
    then have lt: "int (length data) < n" and pos: "0 < k" by (simp_all add: k_def)
    show ?thesis
    proof (cases "rbuf sk = []")
      case True
      show ?thesis
        using empty [OF Cons.prems(1) Cons.prems(2) Cons.prems(3) True k_def pos] Cons.prems(4) True pos
        by (simp add: k_def [symmetric])
    next
      case ne: False
      let ?sk1 = "sk\<lparr>rbuf := drop k (rbuf sk)\<rparr>"
      let ?d1 = "data @ take k (rbuf sk)"
      have step: "read_loop sk n data = read_loop ?sk1 n ?d1"
        using read_loop_step [OF lt sock_recv_buffered [OF Cons.prems(1) ne]] by (simp add: k_def)
      show ?thesis
      proof (cases "k \<le> length (rbuf sk)")
        case True
        then have fin: "\<not> int (length ?d1) < n" using lt by (simp add: k_def min_def)
        show ?thesis unfolding step read_loop_done [OF fin] using True Cons.prems(3)
          by (simp add: k_def [symmetric])
      next
        case False
        then have gt: "length (rbuf sk) < k" by simp
        have k1: "k - length (rbuf sk) = nat (n - int (length ?d1))" using gt by (simp add: k_def)
        have e: "read_loop ?sk1 n ?d1 =
           Some (Inr (?d1 @ take (k - length (rbuf sk)) (c @ concat cs)),
             ?sk1\<lparr>rbuf := fst (buffer_at (k - length (rbuf sk)) c cs),
                 pending := map Data (snd (buffer_at (k - length (rbuf sk)) c cs)) @ rest\<rparr>)"
          using empty [of ?sk1 "k - length (rbuf sk)" ?d1] Cons.prems gt k1
          by (simp add: k_def [symmetric])
        show ?thesis unfolding step e using gt
          by (simp add: k_def [symmetric])
      qed
    qed
  qed
qed

lemma buffer_at_stream:
  "fst (buffer_at p b cs) @ concat (snd (buffer_at p b cs)) = drop p (b @ concat cs)"
  by (induction p b cs rule: buffer_at.induct) auto

lemma buffer_at_add:
  "buffer_at k (fst (buffer_at p b cs)) (snd (buffer_at p b cs)) = buffer_at (p + k) b cs"
proof (induction p b cs rule: buffer_at.induct)
  case (1 p b)
  then show ?case by (simp add: add.commute)
next
  case (2 p b c cs)
  show ?case
  proof (cases "p \<le> length b")
    case True
    then show ?thesis by (auto simp: add.commute)
  next
    case False
    with 2 show ?thesis by simp
  qed
qed






lemma stream_sock_start:
  "pending sk = map Data cs @ rest \<Longrightarrow> stream_sock sk (rbuf sk) cs rest 0 = sk"
  by (cases sk) (simp add: stream_sock_def)

lemma MCRcon_read_stream:
  assumes "connected sk" "\<not> eof sk" "p + nat n \<le> length (b @ concat cs)"
  shows "MCRcon_read tmo (stream_sock sk b cs rest p) n =
     Some (Inr (take (nat n) (drop p (b @ concat cs))),
           stream_sock (sk\<lparr>alarm := None\<rparr>) b cs rest (p + nat n))"
proof -
  let ?s = "signal_alarm tmo (stream_sock sk b cs rest p)"
  have c: "connected ?s" "\<not> eof ?s" using assms by (simp_all add: signal_alarm_def stream_sock_def)
  have pe: "pending ?s = map Data (snd (buffer_at p b cs)) @ rest"
    by (simp add: signal_alarm_def stream_sock_def)
  have rb: "rbuf ?s = fst (buffer_at p b cs)" by (simp add: signal_alarm_def stream_sock_def)
  have le: "nat (n - int (length ([]::bytes))) \<le> length (rbuf ?s @ concat (snd (buffer_at p b cs)))"
    unfolding rb buffer_at_stream using assms(3) by simp
  show ?thesis
    unfolding MCRcon_read_def read_loop_stream [OF c pe le]
    by (simp add: rb buffer_at_stream buffer_at_add signal_alarm_def stream_sock_def)
qed







text \<open>
  The pieces are decoded one by one: two packets that cut the two bytes of the letter
  e-acute apart make the first decoding raise.
\<close>

lemma split_inside_character:
  "MCRcon_send
     (session (Some (peer
        [Data [11, 0, 0, 0, 0, 0, 0, 0, 0, 0, 0, 0, 195, 0, 0,
               11, 0, 0, 0, 0, 0, 0, 0, 0, 0, 0, 0, 169, 0, 0]])))
     2 (str_of ''list'') =
   Some (Inl UnicodeDecodeError,
     session (Some ((peer [])\<lparr>rbuf := [11, 0, 0, 0, 0, 0, 0, 0, 0, 0, 0, 0, 169, 0, 0],
       sent := [14, 0, 0, 0, 0, 0, 0, 0, 2, 0, 0, 0, 108, 105, 115, 116, 0, 0]\<rparr>)))"
proof -
  let ?req = "[14, 0, 0, 0, 0, 0, 0, 0, 2, 0, 0, 0, 108, 105, 115, 116, 0, 0] :: bytes"
  let ?sk0 = "peer [Data [11, 0, 0, 0, 0, 0, 0, 0, 0, 0, 0, 0, 195, 0, 0,
               11, 0, 0, 0, 0, 0, 0, 0, 0, 0, 0, 0, 169, 0, 0]]"
  let ?sk2 = "(peer [])\<lparr>rbuf := [11, 0, 0, 0, 0, 0, 0, 0, 0, 0, 0, 0, 169, 0, 0], sent := ?req\<rparr>"
  have rp: "read_packet 5 (?sk0\<lparr>sent := sent ?sk0 @ ?req\<rparr>) =
      Some (Inr [0, 0, 0, 0, 0, 0, 0, 0, 195, 0, 0], ?sk2)"
    by (simp add: peer_def run_simps)
  have pb: "parse_body [0, 0, 0, 0, 0, 0, 0, 0, 195, 0, 0] = Inr (0, 0, [195], [0, 0])"
    by (simp add: parse_body_def unpack_ii_def signed32_def)
  have dec: "utf8_decode [195] = Inl UnicodeDecodeError" by simp
  show ?thesis
    using recv_packets_undecoded [OF rp pb _ dec, of "[]"] request_list
    by (simp add: MCRcon_send_def session_def sock_send_def peer_def)
qed

subsection \<open>The peer closes early\<close>

lemma read_loop_spin:
  "connected sk \<Longrightarrow> rbuf sk = [] \<Longrightarrow> eof sk \<Longrightarrow> alarm sk = Some a \<Longrightarrow> int (length data) < n
   \<Longrightarrow> read_loop sk n data = Some (Inl timeout_handler, sk\<lparr>alarm := None\<rparr>)"
proof (induction a arbitrary: sk)
  case 0
  then have "sock_recv sk (nat (n - int (length data))) = Some (Inl timeout_handler, sk\<lparr>alarm := None\<rparr>)"
    by (simp add: sock_recv_def)
  from read_loop_raise [OF "0.prems"(5) this] show ?case .
next
  case (Suc a)
  then have r: "sock_recv sk (nat (n - int (length data))) = Some (Inr [], sk\<lparr>alarm := Some a\<rparr>)"
    by (simp add: sock_recv_def)
  have "read_loop (sk\<lparr>alarm := Some a\<rparr>) n data = Some (Inl timeout_handler, sk\<lparr>alarm := Some a\<rparr>\<lparr>alarm := None\<rparr>)"
    using Suc.prems by (intro Suc.IH) simp_all
  with read_loop_step [OF Suc.prems(5) r] show ?case by simp
qed

lemma read_loop_returns_not_spinning:
  assumes "read_loop sk n data = Some y"
  shows "\<not> (connected sk \<and> rbuf sk = [] \<and> eof sk \<and> alarm sk = None \<and> int (length data) < n)"
proof (rule read_loop.raw_induct [OF _ assms])
  fix f sk n data y
  assume ih: "\<And>sk n data y. f sk n data = Some y \<Longrightarrow>
      \<not> (connected sk \<and> rbuf sk = [] \<and> eof sk \<and> alarm sk = None \<and> int (length data) < n)"
    and eq: "(if int (length data) < n
      then Option.bind (sock_recv sk (nat (n - int (length data))))
           (\<lambda>(r, sk'). case r of Inl e \<Rightarrow> Some (Inl e, sk')
               | Inr chunk \<Rightarrow> f sk' n (data @ chunk))
      else Some (Inr data, sk)) = Some y"
  show "\<not> (connected sk \<and> rbuf sk = [] \<and> eof sk \<and> alarm sk = None \<and> int (length data) < n)"
  proof
    assume a: "connected sk \<and> rbuf sk = [] \<and> eof sk \<and> alarm sk = None \<and> int (length data) < n"
    then have "sock_recv sk (nat (n - int (length data))) = Some (Inr [], sk)"
      by (simp add: sock_recv_def)
    with a eq have "f sk n data = Some y" by simp
    from ih [OF this] a show False by simp
  qed
qed

lemma read_loop_forever:
  assumes "connected sk" "rbuf sk = []" "eof sk" "alarm sk = None" "int (length data) < n"
  shows "read_loop sk n data = None"
  using read_loop_returns_not_spinning [of sk n data] assms
  by (cases "read_loop sk n data") auto

lemma read_loop_drain:
  assumes "connected sk" "\<not> eof sk" "pending sk = map Data cs @ rest"
    and "length (rbuf sk @ concat cs) < nat (n - int (length data))"
  shows "read_loop sk n data =
     read_loop (sk\<lparr>rbuf := [], pending := rest\<rparr>) n (data @ rbuf sk @ concat cs)"
  using assms
proof (induction cs arbitrary: sk data)
  case Nil
  show ?case
  proof (cases "rbuf sk = []")
    case True
    then have "sk\<lparr>rbuf := [], pending := rest\<rparr> = sk" using Nil.prems(3) by (cases sk) simp
    with True show ?thesis by simp
  next
    case False
    have lt: "int (length data) < n" using Nil.prems(4) by simp
    have "take (nat (n - int (length data))) (rbuf sk) = rbuf sk"
      "drop (nat (n - int (length data))) (rbuf sk) = []" using Nil.prems(4) by simp_all
    moreover have "sk\<lparr>rbuf := []\<rparr> = sk\<lparr>rbuf := [], pending := rest\<rparr>"
      using Nil.prems(3) by (cases sk) simp
    ultimately show ?thesis
      using read_loop_step [OF lt sock_recv_buffered [OF Nil.prems(1) False]] by simp
  qed
next
  case (Cons c cs)
  have lt: "int (length data) < n" using Cons.prems(4) by simp
  have empty: "read_loop sk' n data' =
     read_loop (sk'\<lparr>rbuf := [], pending := rest\<rparr>) n (data' @ c @ concat cs)"
    if h: "connected sk'" "\<not> eof sk'" "pending sk' = map Data (c # cs) @ rest" "rbuf sk' = []"
      "length (c @ concat cs) < nat (n - int (length data'))" for sk' data'
  proof -
    have lt': "int (length data') < n" using h(5) by simp
    have p: "pending sk' = Data c # (map Data cs @ rest)" using h by simp
    have t: "take (nat (n - int (length data'))) c = c" "drop (nat (n - int (length data'))) c = []"
      using h(5) by simp_all
    let ?sk1 = "sk'\<lparr>rbuf := [], pending := map Data cs @ rest\<rparr>"
    have step: "read_loop sk' n data' = read_loop ?sk1 n (data' @ c)"
      using read_loop_step [OF lt' sock_recv_arrival [OF h(1) h(2) h(4) p]] unfolding t .
    have b: "length (rbuf ?sk1 @ concat cs) < nat (n - int (length (data' @ c)))"
      using h(5) by (simp; linarith)
    show ?thesis unfolding step using Cons.IH [of ?sk1 "data' @ c", OF _ _ _ b] h(1,2) by simp
  qed
  show ?case
  proof (cases "rbuf sk = []")
    case True
    with empty [OF Cons.prems(1-3) True] Cons.prems(4) show ?thesis by simp
  next
    case False
    have t: "take (nat (n - int (length data))) (rbuf sk) = rbuf sk"
      "drop (nat (n - int (length data))) (rbuf sk) = []" using Cons.prems(4) by simp_all
    let ?sk1 = "sk\<lparr>rbuf := []\<rparr>"
    have step: "read_loop sk n data = read_loop ?sk1 n (data @ rbuf sk)"
      using read_loop_step [OF lt sock_recv_buffered [OF Cons.prems(1) False]] unfolding t .
    have b: "length (c @ concat cs) < nat (n - int (length (data @ rbuf sk)))"
      using Cons.prems(4) by (simp; linarith)
    show ?thesis unfolding step using empty [of ?sk1 "data @ rbuf sk", OF _ _ _ _ b] Cons.prems(1-3)
      by simp
  qed
qed

lemma MCRcon_read_closed_early:
  assumes "connected sk" "\<not> eof sk" "pending sk = map Data cs @ Fin # rest"
    and "int (length (rbuf sk @ concat cs)) < n"
  shows "MCRcon_read tmo sk n =
     (if tmo = 0 then None
      else Some (Inl timeout_handler, sk\<lparr>rbuf := [], eof := True, pending := rest, alarm := None\<rparr>))"
proof -
  let ?s = "signal_alarm tmo sk"
  have c: "connected ?s" "\<not> eof ?s" "pending ?s = map Data cs @ Fin # rest" "rbuf ?s = rbuf sk"
    using assms by (simp_all add: signal_alarm_def)
  have short: "length (rbuf ?s @ concat cs) < nat (n - int (length ([]::bytes)))"
    using assms(4) c(4) by simp
  let ?s1 = "?s\<lparr>rbuf := [], pending := Fin # rest\<rparr>"
  let ?d = "rbuf sk @ concat cs"
  have lt: "int (length ([] @ ?d)) < n" using assms(4) by simp
  have drain: "read_loop ?s n [] = read_loop ?s1 n ([] @ ?d)"
    using read_loop_drain [OF c(1-3) short] c(4) by simp
  let ?s2 = "?s\<lparr>rbuf := [], eof := True, pending := rest\<rparr>"
  have fin: "sock_recv ?s1 (nat (n - int (length ([] @ ?d)))) = Some (Inr [], ?s2)"
    using assms(1,2) by (simp add: sock_recv_def signal_alarm_def)
  have closed: "read_loop ?s1 n ([] @ ?d) = read_loop ?s2 n ?d"
    using read_loop_step [OF lt fin] by simp
  have lt2: "int (length ?d) < n" using assms(4) by simp
  show ?thesis
  proof (cases "tmo = 0")
    case True
    have "read_loop ?s2 n ?d = None"
      using assms(1) True lt2 by (intro read_loop_forever) (simp_all add: signal_alarm_def)
    then have "MCRcon_read tmo sk n = None" unfolding MCRcon_read_def drain closed by simp
    then show ?thesis using True by simp
  next
    case False
    have "read_loop ?s2 n ?d = Some (Inl timeout_handler, ?s2\<lparr>alarm := None\<rparr>)"
      using assms(1) False lt2
      by (intro read_loop_spin [where a = "tmo * spin_rate sk"]) (simp_all add: signal_alarm_def)
    then have "MCRcon_read tmo sk n = Some (Inl timeout_handler, ?s2\<lparr>alarm := None\<rparr>)"
      unfolding MCRcon_read_def drain closed by simp
    then show ?thesis using False by (simp add: signal_alarm_def)
  qed
qed

lemma MCRcon_read_reset:
  assumes "connected sk" "\<not> eof sk" "pending sk = map Data cs @ Rst # rest"
    and "int (length (rbuf sk @ concat cs)) < n"
  shows "MCRcon_read tmo sk n =
     Some (Inl (OSError ''ECONNRESET''),
           signal_alarm tmo sk\<lparr>rbuf := [], eof := True, pending := rest\<rparr>)"
proof -
  let ?s = "signal_alarm tmo sk"
  have c: "connected ?s" "\<not> eof ?s" "pending ?s = map Data cs @ Rst # rest" "rbuf ?s = rbuf sk"
    using assms by (simp_all add: signal_alarm_def)
  have short: "length (rbuf ?s @ concat cs) < nat (n - int (length ([]::bytes)))"
    using assms(4) c(4) by simp
  let ?s1 = "?s\<lparr>rbuf := [], pending := Rst # rest\<rparr>"
  let ?d = "rbuf sk @ concat cs"
  have lt: "int (length ([] @ ?d)) < n" using assms(4) by simp
  have drain: "read_loop ?s n [] = read_loop ?s1 n ([] @ ?d)"
    using read_loop_drain [OF c(1-3) short] c(4) by simp
  let ?s2 = "?s\<lparr>rbuf := [], eof := True, pending := rest\<rparr>"
  have rst: "sock_recv ?s1 (nat (n - int (length ([] @ ?d)))) = Some (Inl (OSError ''ECONNRESET''), ?s2)"
    using assms(1,2) by (simp add: sock_recv_def signal_alarm_def)
  show ?thesis
    using read_loop_raise [OF lt rst] by (simp add: MCRcon_read_def drain)
qed

lemma read_packet_closed_early:
  assumes "connected sk" "\<not> eof sk" "pending sk = map Data cs @ Fin # rest"
    and "length (rbuf sk @ concat cs) < 4 \<or>
         (\<exists>in_length. unpack_i (take 4 (rbuf sk @ concat cs)) = Inr in_length
            \<and> int (length (rbuf sk @ concat cs)) < 4 + in_length)"
  shows "read_packet tmo sk =
     (if tmo = 0 then None
      else Some (Inl timeout_handler, sk\<lparr>rbuf := [], eof := True, pending := rest, alarm := None\<rparr>))"
proof (cases "length (rbuf sk @ concat cs) < 4")
  case True
  then have "int (length (rbuf sk @ concat cs)) < 4" by simp
  from MCRcon_read_closed_early [OF assms(1-3) this, of tmo] show ?thesis
    by (simp add: read_packet_def)
next
  case False
  with assms(4) obtain in_length where u: "unpack_i (take 4 (rbuf sk @ concat cs)) = Inr in_length"
    and short: "int (length (rbuf sk @ concat cs)) < 4 + in_length" by auto
  let ?S = "rbuf sk @ concat cs"
  let ?rest = "Fin # rest"
  have st: "stream_sock sk (rbuf sk) cs ?rest 0 = sk" by (rule stream_sock_start [OF assms(3)])
  have le: "0 + nat 4 \<le> length ?S" using False by simp
  have r1: "MCRcon_read tmo sk 4 =
     Some (Inr (take 4 ?S), stream_sock (sk\<lparr>alarm := None\<rparr>) (rbuf sk) cs ?rest 4)"
    using MCRcon_read_stream [OF assms(1,2) le, where tmo = tmo and rest = ?rest] unfolding st
    by simp
  let ?sk1 = "stream_sock (sk\<lparr>alarm := None\<rparr>) (rbuf sk) cs ?rest 4"
  let ?cs1 = "snd (buffer_at 4 (rbuf sk) cs)"
  have c1: "connected ?sk1" "\<not> eof ?sk1" using assms(1,2) by (simp_all add: stream_sock_def)
  have p1: "pending ?sk1 = map Data ?cs1 @ Fin # rest" by (simp add: stream_sock_def)
  have s1: "rbuf ?sk1 @ concat ?cs1 = drop 4 ?S"
    using buffer_at_stream [of 4 "rbuf sk" cs] by (simp add: stream_sock_def)
  have l1: "int (length (rbuf ?sk1 @ concat ?cs1)) < in_length"
    unfolding s1 using short False by simp
  have fin: "?sk1\<lparr>rbuf := [], eof := True, pending := rest, alarm := None\<rparr>
     = sk\<lparr>rbuf := [], eof := True, pending := rest, alarm := None\<rparr>"
    by (simp add: stream_sock_def)
  have "read_packet tmo sk = MCRcon_read tmo ?sk1 in_length"
    unfolding read_packet_def r1 by (simp only: Option.bind.simps prod.case sum.case u)
  with MCRcon_read_closed_early [OF c1 p1 l1, of tmo] show ?thesis
    unfolding fin by simp
qed

lemma read_packet_reset:
  assumes "connected sk" "\<not> eof sk" "pending sk = map Data cs @ Rst # rest"
    and "length (rbuf sk @ concat cs) < 4 \<or>
         (\<exists>in_length. unpack_i (take 4 (rbuf sk @ concat cs)) = Inr in_length
            \<and> int (length (rbuf sk @ concat cs)) < 4 + in_length)"
  shows "read_packet tmo sk =
     Some (Inl (OSError ''ECONNRESET''),
           sk\<lparr>rbuf := [], eof := True, pending := rest,
              alarm := (if tmo = 0 then None else Some (tmo * spin_rate sk))\<rparr>)"
proof (cases "length (rbuf sk @ concat cs) < 4")
  case True
  then have "int (length (rbuf sk @ concat cs)) < 4" by simp
  from MCRcon_read_reset [OF assms(1-3) this, of tmo] show ?thesis
    by (simp add: read_packet_def signal_alarm_def)
next
  case False
  with assms(4) obtain in_length where u: "unpack_i (take 4 (rbuf sk @ concat cs)) = Inr in_length"
    and short: "int (length (rbuf sk @ concat cs)) < 4 + in_length" by auto
  let ?S = "rbuf sk @ concat cs"
  let ?rest = "Rst # rest"
  have st: "stream_sock sk (rbuf sk) cs ?rest 0 = sk" by (rule stream_sock_start [OF assms(3)])
  have le: "0 + nat 4 \<le> length ?S" using False by simp
  have r1: "MCRcon_read tmo sk 4 =
     Some (Inr (take 4 ?S), stream_sock (sk\<lparr>alarm := None\<rparr>) (rbuf sk) cs ?rest 4)"
    using MCRcon_read_stream [OF assms(1,2) le, where tmo = tmo and rest = ?rest] unfolding st
    by simp
  let ?sk1 = "stream_sock (sk\<lparr>alarm := None\<rparr>) (rbuf sk) cs ?rest 4"
  let ?cs1 = "snd (buffer_at 4 (rbuf sk) cs)"
  have c1: "connected ?sk1" "\<not> eof ?sk1" using assms(1,2) by (simp_all add: stream_sock_def)
  have p1: "pending ?sk1 = map Data ?cs1 @ Rst # rest" by (simp add: stream_sock_def)
  have s1: "rbuf ?sk1 @ concat ?cs1 = drop 4 ?S"
    using buffer_at_stream [of 4 "rbuf sk" cs] by (simp add: stream_sock_def)
  have l1: "int (length (rbuf ?sk1 @ concat ?cs1)) < in_length"
    unfolding s1 using short False by simp
  have fin: "signal_alarm tmo ?sk1\<lparr>rbuf := [], eof := True, pending := rest\<rparr>
     = sk\<lparr>rbuf := [], eof := True, pending := rest,
          alarm := (if tmo = 0 then None else Some (tmo * spin_rate sk))\<rparr>"
    by (simp add: stream_sock_def signal_alarm_def)
  have "read_packet tmo sk = MCRcon_read tmo ?sk1 in_length"
    unfolding read_packet_def r1 by (simp only: Option.bind.simps prod.case sum.case u)
  with MCRcon_read_reset [OF c1 p1 l1, of tmo] show ?thesis
    unfolding fin by simp
qed

text \<open>
  Claim C7, amended. Let the peer end the connection before the client has read a whole
  packet (fewer than four bytes, or fewer bytes than the declared length after them).
  After an orderly close every \<^verbatim>\<open>recv\<close> returns the empty byte string and \<^verbatim>\<open>_read\<close>
  repeats it until the alarm goes off: with a positive timeout the client raises
  \<^verbatim>\<open>MCRconException("Connection timeout error")\<close>, the timeout condition, and with the
  timeout 0 the call never returns. When the connection is reset instead, the error of
  the socket layer is propagated.
\<close>

theorem premature_close_outcome:
  assumes "socket self = Some ska" "connected ska" "request_frame out_type out_data = Inr frame"
    and "loop_at (timeout self) (ska\<lparr>sent := sent ska @ frame\<rparr>) sk in_data"
    and "\<not> eof sk"
    and "length (rbuf sk @ concat cs) < 4 \<or>
         (\<exists>in_length. unpack_i (take 4 (rbuf sk @ concat cs)) = Inr in_length
            \<and> int (length (rbuf sk @ concat cs)) < 4 + in_length)"
  shows "(pending sk = map Data cs @ Fin # rest \<longrightarrow>
           MCRcon_send self out_type out_data =
             (if timeout self = 0 then None
              else Some (Inl timeout_handler,
                self\<lparr>socket := Some (sk\<lparr>rbuf := [], eof := True, pending := rest,
                                         alarm := None\<rparr>)\<rparr>)))
       \<and> (pending sk = map Data cs @ Rst # rest \<longrightarrow>
           MCRcon_send self out_type out_data =
             Some (Inl (OSError ''ECONNRESET''),
               self\<lparr>socket := Some (sk\<lparr>rbuf := [], eof := True, pending := rest,
                 alarm := (if timeout self = 0 then None
                           else Some (timeout self * spin_rate sk))\<rparr>)\<rparr>))"
proof (intro conjI impI)
  have c: "connected sk" using loop_at_connected [OF assms(4)] assms(2) by simp
  {
    assume p: "pending sk = map Data cs @ Fin # rest"
    note rp = read_packet_closed_early [OF c assms(5) p assms(6), of "timeout self"]
    show "MCRcon_send self out_type out_data =
             (if timeout self = 0 then None
              else Some (Inl timeout_handler,
                self\<lparr>socket := Some (sk\<lparr>rbuf := [], eof := True, pending := rest,
                                         alarm := None\<rparr>)\<rparr>))"
    proof (cases "timeout self = 0")
      case True
      with rp have "read_packet (timeout self) sk = None" by simp
      from recv_packets_block [OF this] show ?thesis
        using True by (simp add: MCRcon_send_loop [OF assms(1-4)])
    next
      case False
      with rp have "read_packet (timeout self) sk =
        Some (Inl timeout_handler, sk\<lparr>rbuf := [], eof := True, pending := rest, alarm := None\<rparr>)"
        by simp
      from recv_packets_raise [OF this] show ?thesis
        using False by (simp add: MCRcon_send_loop [OF assms(1-4)])
    qed
  }
  {
    assume p: "pending sk = map Data cs @ Rst # rest"
    from recv_packets_raise [OF read_packet_reset [OF c assms(5) p assms(6), of "timeout self"]]
    show "MCRcon_send self out_type out_data =
             Some (Inl (OSError ''ECONNRESET''),
               self\<lparr>socket := Some (sk\<lparr>rbuf := [], eof := True, pending := rest,
                 alarm := (if timeout self = 0 then None
                           else Some (timeout self * spin_rate sk))\<rparr>)\<rparr>)"
      by (simp add: MCRcon_send_loop [OF assms(1-4)])
  }
qed

theorem premature_close_outcome_witness:
  "MCRcon_send (session (Some (peer [Data [10, 0, 0, 0, 0, 0, 0, 0, 2, 0], Fin]))) 2 (str_of ''list'') =
     Some (Inl timeout_handler,
       session (Some ((peer [])\<lparr>eof := True,
          sent := [14, 0, 0, 0, 0, 0, 0, 0, 2, 0, 0, 0, 108, 105, 115, 116, 0, 0]\<rparr>)))
   \<and> MCRcon_send (session (Some (peer [Data [10, 0, 0, 0, 0, 0, 0, 0, 2, 0], Rst]))) 2 (str_of ''list'') =
     Some (Inl (OSError ''ECONNRESET''),
       session (Some ((peer [])\<lparr>eof := True, alarm := Some 5,
          sent := [14, 0, 0, 0, 0, 0, 0, 0, 2, 0, 0, 0, 108, 105, 115, 116, 0, 0]\<rparr>)))"
proof -
  have u: "unpack_i (take 4 [10, 0, 0, 0, 0, 0, 0, 0, 2, 0]) = Inr 10" by (simp add: signed32_def)
  have a: "socket (session (Some (peer evs))) = Some (peer evs)" for evs by (simp add: session_def)
  have b: "connected (peer evs)" for evs by (simp add: peer_def)
  show ?thesis
    using premature_close_outcome [OF a b request_list loop_at.first,
        where cs = "[[10, 0, 0, 0, 0, 0, 0, 0, 2, 0]]" and rest = "[]"
          and ?evs2 = "[Data [10, 0, 0, 0, 0, 0, 0, 0, 2, 0], Fin]"]
      premature_close_outcome [OF a b request_list loop_at.first,
        where cs = "[[10, 0, 0, 0, 0, 0, 0, 0, 2, 0]]" and rest = "[]"
          and ?evs2 = "[Data [10, 0, 0, 0, 0, 0, 0, 0, 2, 0], Rst]"]
      u
    by (simp add: peer_def session_def)
qed

text \<open>
  Claim C7 as stated fails: the peer sends the length 10 and six bytes and closes; the
  client raises the timeout condition, not a connection error.
\<close>

theorem premature_close_raises_timeout:
  "MCRcon_command (session (Some (peer [Data [10, 0, 0, 0, 0, 0, 0, 0, 2, 0], Fin]))) (str_of ''list'') =
     Some (Inl (MCRconException ''Connection timeout error''),
       session (Some ((peer [])\<lparr>eof := True,
          sent := [14, 0, 0, 0, 0, 0, 0, 0, 2, 0, 0, 0, 108, 105, 115, 116, 0, 0]\<rparr>)))"
proof -
  have rp: "read_packet 5 ((peer [Data [10, 0, 0, 0, 0, 0, 0, 0, 2, 0], Fin])
      \<lparr>sent := [14, 0, 0, 0, 0, 0, 0, 0, 2, 0, 0, 0, 108, 105, 115, 116, 0, 0]\<rparr>) =
    Some (Inl timeout_handler, (peer [])\<lparr>eof := True,
          sent := [14, 0, 0, 0, 0, 0, 0, 0, 2, 0, 0, 0, 108, 105, 115, 116, 0, 0]\<rparr>)"
    by (simp add: peer_def run_simps)
  show ?thesis
    using recv_packets_raise [OF rp, of "[]"]
    by (simp add: MCRcon_command_def MCRcon_send_def session_def request_list sock_send_def
        peer_def timeout_handler_def)
qed

end
